theory Spec2Isabelle
  imports Main "HOL-Library.Sublist"
begin

section \<open>POSIX path operations the script calls\<close>

text \<open>
  \<^verbatim>\<open>os.path.join(a, b)\<close> with two arguments, as \<^verbatim>\<open>posixpath\<close> computes it: a second
  argument that starts with the separator replaces the first; otherwise it is appended,
  with a separator in between unless the first is empty or already ends in one.
\<close>

definition os_path_join :: "string \<Rightarrow> string \<Rightarrow> string" where
  "os_path_join a b =
     (if b \<noteq> [] \<and> hd b = CHR ''/'' then b
      else if a = [] \<or> last a = CHR ''/'' then a @ b
      else a @ ''/'' @ b)"

text \<open>\<^verbatim>\<open>os.path.basename(p)\<close>: what follows the last separator of \<open>p\<close>.\<close>

definition os_path_basename :: "string \<Rightarrow> string" where
  "os_path_basename p = rev (takeWhile (\<lambda>c. c \<noteq> CHR ''/'') (rev p))"

text \<open>\<^verbatim>\<open>str.split('/')\<close>, the components between separators (never an empty list).\<close>

fun split_sep :: "string \<Rightarrow> string list" where
  "split_sep [] = [[]]"
| "split_sep (c # cs) =
     (if c = CHR ''/'' then [] # split_sep cs
      else (case split_sep cs of [] \<Rightarrow> [[c]] | x # xs \<Rightarrow> (c # x) # xs))"

text \<open>\<^verbatim>\<open>'/'.join(comps)\<close>.\<close>

fun sep_join :: "string list \<Rightarrow> string" where
  "sep_join [] = []"
| "sep_join [x] = x"
| "sep_join (x # y # ys) = x @ ''/'' @ sep_join (y # ys)"

text \<open>
  The loop of \<^verbatim>\<open>posixpath.normpath\<close> over the components: empty and \<^verbatim>\<open>.\<close> components
  are dropped, \<^verbatim>\<open>..\<close> removes the component before it where there is one to remove.
\<close>

fun norm_comps :: "nat \<Rightarrow> string list \<Rightarrow> string list \<Rightarrow> string list" where
  "norm_comps initial_slashes new_comps [] = new_comps"
| "norm_comps initial_slashes new_comps (part # comps) =
     (if part = [] \<or> part = ''.'' then norm_comps initial_slashes new_comps comps
      else if part \<noteq> ''..'' \<or> (initial_slashes = 0 \<and> new_comps = [])
                \<or> (new_comps \<noteq> [] \<and> last new_comps = ''..'')
        then norm_comps initial_slashes (new_comps @ [part]) comps
      else if new_comps \<noteq> [] then norm_comps initial_slashes (butlast new_comps) comps
      else norm_comps initial_slashes new_comps comps)"

definition os_path_normpath :: "string \<Rightarrow> string" where
  "os_path_normpath path =
     (if path = [] then ''.''
      else
        let initial_slashes =
              (if take 1 path = ''/'' then
                 (if take 2 path = ''//'' \<and> take 3 path \<noteq> ''///'' then 2 else 1)
               else (0::nat));
            comps = norm_comps initial_slashes [] (split_sep path);
            p = replicate initial_slashes (CHR ''/'') @ sep_join comps
        in if p = [] then ''.'' else p)"

section \<open>The world the script runs in\<close>

text \<open>
  The local file system as the script sees it, through the four operations it calls:
  \<^verbatim>\<open>os.listdir\<close> (\<open>None\<close> when it raises: the path is missing, not a directory or
  not listable), \<^verbatim>\<open>os.path.isdir\<close> and \<^verbatim>\<open>os.path.isfile\<close> (both look through symbolic
  links, so \<open>islink\<close>, which the script never asks, can hold together with either), and
  whether \<^verbatim>\<open>open(path, 'rb')\<close> succeeds.
\<close>

record filesystem =
  listdir :: "string \<Rightarrow> string list option"
  isdir :: "string \<Rightarrow> bool"
  isfile :: "string \<Rightarrow> bool"
  islink :: "string \<Rightarrow> bool"
  readable :: "string \<Rightarrow> bool"

text \<open>The arguments the script hands to the \<^verbatim>\<open>Agave\<close> constructor.\<close>

record session =
  api_server :: string
  username :: string
  password :: string
  client_name :: string
  api_key :: string
  api_secret :: string

text \<open>
  What the run does to the outside, in order: the three calls into the SDK (the
  constructor, \<^verbatim>\<open>files.manage\<close> and \<^verbatim>\<open>files.importData\<close>, with their keyword
  arguments) and the opening and closing of local files. A file object is named by the
  path it was opened from.
\<close>

datatype event =
    Agave_new session
  | Files_manage (body_action: string) (body_path: string) (systemId: string) (filePath: string)
  | Files_importData (systemId: string) (filePath: string) (fileToUpload: string) (fileName: string)
  | Open_rb string
  | Close_file string

fun is_remote :: "event \<Rightarrow> bool" where
  "is_remote (Agave_new s) = True"
| "is_remote (Files_manage a p s r) = True"
| "is_remote (Files_importData s q h f) = True"
| "is_remote (Open_rb p) = False"
| "is_remote (Close_file p) = False"


fun is_upload :: "event \<Rightarrow> bool" where
  "is_upload (Files_importData s q h f) = True"
| "is_upload e = False"

text \<open>
  The remote side: given the events so far and a call, whether the call returns (\<open>True\<close>)
  or raises.
\<close>

type_synonym remote = "event list \<Rightarrow> event \<Rightarrow> bool"

datatype error = KeyError string | OSError string | RemoteError event

section \<open>AgaveWrapper\<close>

record AgaveWrapper =
  rootpath :: string
  system_id :: string
  agave :: session

text \<open>
  The adapter object is shared by reference, so the state every operation receives and
  returns holds the object next to the log of events.
\<close>

record world =
  adapter :: AgaveWrapper
  log :: "event list"

text \<open>
  \<^verbatim>\<open>AgaveWrapper.__init__(**params)\<close>: the look-ups in the order Python evaluates them;
  each missing key raises \<^verbatim>\<open>KeyError\<close> before the \<^verbatim>\<open>Agave\<close> constructor is called.
\<close>

definition AgaveWrapper_init ::
  "(string \<rightharpoonup> string) \<Rightarrow> remote \<Rightarrow> (string \<rightharpoonup> string) \<Rightarrow> event list
     \<Rightarrow> (error + AgaveWrapper) \<times> event list" where
  "AgaveWrapper_init environ sdk params lg =
     (case params ''rootpath'' of None \<Rightarrow> (Inl (KeyError ''rootpath''), lg) | Some rp \<Rightarrow>
      case params ''system_id'' of None \<Rightarrow> (Inl (KeyError ''system_id''), lg) | Some sid \<Rightarrow>
      case environ ''AGAVE_SERVER'' of None \<Rightarrow> (Inl (KeyError ''AGAVE_SERVER''), lg) | Some server \<Rightarrow>
      case params ''username'' of None \<Rightarrow> (Inl (KeyError ''username''), lg) | Some user \<Rightarrow>
      case params ''password'' of None \<Rightarrow> (Inl (KeyError ''password''), lg) | Some pw \<Rightarrow>
      case environ ''AGAVE_CLIENT'' of None \<Rightarrow> (Inl (KeyError ''AGAVE_CLIENT''), lg) | Some client \<Rightarrow>
      case environ ''AGAVE_API_KEY'' of None \<Rightarrow> (Inl (KeyError ''AGAVE_API_KEY''), lg) | Some key \<Rightarrow>
      case environ ''AGAVE_API_SECRET'' of None \<Rightarrow> (Inl (KeyError ''AGAVE_API_SECRET''), lg) | Some secret \<Rightarrow>
        let s = \<lparr>api_server = ''https://'' @ server, username = user, password = pw,
                 client_name = client, api_key = key, api_secret = secret\<rparr>;
            call = Agave_new s
        in if sdk lg call
           then (Inr \<lparr>rootpath = rp, system_id = sid, agave = s\<rparr>, lg @ [call])
           else (Inl (RemoteError call), lg @ [call]))"

definition make_directory :: "remote \<Rightarrow> string \<Rightarrow> world \<Rightarrow> (error + unit) \<times> world" where
  "make_directory sdk path w =
     (let call = Files_manage ''mkdir'' path (system_id (adapter w)) (rootpath (adapter w));
          w' = w\<lparr>log := log w @ [call]\<rparr>
      in if sdk (log w) call then (Inr (), w') else (Inl (RemoteError call), w'))"

definition upload_fileobj ::
  "remote \<Rightarrow> string \<Rightarrow> string \<Rightarrow> string \<Rightarrow> world \<Rightarrow> (error + unit) \<times> world" where
  "upload_fileobj sdk file_obj dest_path filename w =
     (let qualified_path = os_path_join (rootpath (adapter w)) dest_path;
          call = Files_importData (system_id (adapter w)) qualified_path file_obj filename;
          w' = w\<lparr>log := log w @ [call]\<rparr>
      in if sdk (log w) call then (Inr (), w') else (Inl (RemoteError call), w'))"

text \<open>
  \<^verbatim>\<open>with open(file_path, 'rb') as file: self.upload_fileobj(file, dest_path, filename)\<close>:
  when the file cannot be opened nothing else happens; once it is open, it is closed
  whether the body returns or raises.
\<close>

definition upload_file ::
  "filesystem \<Rightarrow> remote \<Rightarrow> string \<Rightarrow> string \<Rightarrow> string \<Rightarrow> world \<Rightarrow> (error + unit) \<times> world" where
  "upload_file fs sdk file_path dest_path filename w =
     (if \<not> readable fs file_path then (Inl (OSError file_path), w)
      else
        let w1 = w\<lparr>log := log w @ [Open_rb file_path]\<rparr>;
            (r, w2) = upload_fileobj sdk file_path dest_path filename w1
        in (r, w2\<lparr>log := log w2 @ [Close_file file_path]\<rparr>))"

section \<open>copy_from\<close>

text \<open>
  The recursion of \<^verbatim>\<open>copy_from\<close> follows the local file system, which may be cyclic
  through links, so the model carries the number of nested activations still allowed
  (Python's recursion limit); \<open>None\<close> is the run that exceeds it. The \<^verbatim>\<open>for\<close> loop over
  the listing is \<open>copy_from_loop\<close>. An exception leaves both at once.
\<close>

function copy_from ::
    "nat \<Rightarrow> filesystem \<Rightarrow> remote \<Rightarrow> string \<Rightarrow> string \<Rightarrow> world \<Rightarrow> ((error + unit) \<times> world) option"
  and copy_from_loop ::
    "nat \<Rightarrow> filesystem \<Rightarrow> remote \<Rightarrow> string \<Rightarrow> string \<Rightarrow> string list \<Rightarrow> world
       \<Rightarrow> ((error + unit) \<times> world) option"
where
  "copy_from 0 fs sdk local_path remote_path w = None"
| "copy_from (Suc n) fs sdk local_path remote_path w =
     (case make_directory sdk remote_path w of
        (Inl e, w1) \<Rightarrow> Some (Inl e, w1)
      | (Inr u, w1) \<Rightarrow>
          (case listdir fs local_path of
             None \<Rightarrow> Some (Inl (OSError local_path), w1)
           | Some files \<Rightarrow> copy_from_loop n fs sdk local_path remote_path files w1))"
| "copy_from_loop n fs sdk local_path remote_path [] w = Some (Inr (), w)"
| "copy_from_loop n fs sdk local_path remote_path (file # files) w =
     (let local_file_path = os_path_join local_path file;
          remote_file_path = os_path_join remote_path file
      in if isdir fs local_file_path then
           (case copy_from n fs sdk local_file_path remote_file_path w of
              None \<Rightarrow> None
            | Some (Inl e, w1) \<Rightarrow> Some (Inl e, w1)
            | Some (Inr u, w1) \<Rightarrow> copy_from_loop n fs sdk local_path remote_path files w1)
         else if isfile fs local_file_path then
           (case upload_file fs sdk local_file_path remote_path file w of
              (Inl e, w1) \<Rightarrow> Some (Inl e, w1)
            | (Inr u, w1) \<Rightarrow> copy_from_loop n fs sdk local_path remote_path files w1)
         else copy_from_loop n fs sdk local_path remote_path files w)"
  by pat_completeness auto
termination
  by (relation "measures
        [\<lambda>x. case x of Inl (n, _) \<Rightarrow> 2 * n | Inr (n, _) \<Rightarrow> 2 * n + 1,
         \<lambda>x. case x of Inl _ \<Rightarrow> 0 | Inr (_, _, _, _, _, files, _) \<Rightarrow> length files]")
     auto

section \<open>main\<close>

text \<open>
  What the process is started with: the positional argument, the environment, the login
  name \<^verbatim>\<open>getpass.getuser()\<close> returns and the password typed at the prompt.
\<close>

record process =
  directory :: string
  environ :: "string \<rightharpoonup> string"
  login_user :: string
  typed_password :: string

definition main :: "nat \<Rightarrow> process \<Rightarrow> filesystem \<Rightarrow> remote \<Rightarrow> ((error + unit) \<times> event list) option" where
  "main limit p fs sdk =
     (let local_path = os_path_normpath (directory p);
          remote_path = os_path_basename local_path
      in case AgaveWrapper_init (environ p) sdk
                [''rootpath'' \<mapsto> ''/sample/biofab'', ''system_id'' \<mapsto> ''data-sd2e-community'',
                 ''username'' \<mapsto> login_user p, ''password'' \<mapsto> typed_password p] []
         of (Inl e, lg) \<Rightarrow> Some (Inl e, lg)
          | (Inr a, lg) \<Rightarrow>
              (case copy_from limit fs sdk local_path remote_path \<lparr>adapter = a, log = lg\<rparr> of
                 None \<Rightarrow> None
               | Some (r, w) \<Rightarrow> Some (r, log w)))"

text \<open>A caller's use of the adapter: any of its three operations, in any order.\<close>

datatype operation =
    Make_directory string
  | Upload_file string string string
  | Upload_fileobj string string string

fun invoke :: "filesystem \<Rightarrow> remote \<Rightarrow> operation \<Rightarrow> world \<Rightarrow> (error + unit) \<times> world" where
  "invoke fs sdk (Make_directory path) w = make_directory sdk path w"
| "invoke fs sdk (Upload_file file_path dest_path filename) w =
     upload_file fs sdk file_path dest_path filename w"
| "invoke fs sdk (Upload_fileobj file_obj dest_path filename) w =
     upload_fileobj sdk file_obj dest_path filename w"

text \<open>A sequence of operations whose caller goes on after an exception.\<close>

fun invoke_all :: "filesystem \<Rightarrow> remote \<Rightarrow> operation list \<Rightarrow> world \<Rightarrow> world" where
  "invoke_all fs sdk [] w = w"
| "invoke_all fs sdk (x # xs) w = invoke_all fs sdk xs (snd (invoke fs sdk x w))"

text \<open>
  The files a log leaves open: \<^verbatim>\<open>open\<close> adds a handle, closing removes it.
\<close>

fun track :: "string list \<Rightarrow> event \<Rightarrow> string list" where
  "track hs (Open_rb p) = p # hs"
| "track hs (Close_file p) = remove1 p hs"
| "track hs e = hs"

definition open_files :: "event list \<Rightarrow> string list" where
  "open_files lg = foldl track [] lg"

section \<open>A concrete run\<close>

text \<open>
  The directory \<^verbatim>\<open>proj\<close> holds the file \<^verbatim>\<open>a.txt\<close>, the directory \<^verbatim>\<open>sub\<close> with the file
  \<^verbatim>\<open>b.txt\<close>, and the FIFO \<^verbatim>\<open>pipe\<close>.
\<close>

definition example_fs :: filesystem where
  "example_fs =
     \<lparr>listdir = (\<lambda>p. if p = ''proj'' then Some [''a.txt'', ''sub'', ''pipe'']
                      else if p = ''proj/sub'' then Some [''b.txt''] else None),
      isdir = (\<lambda>p. p = ''proj'' \<or> p = ''proj/sub''),
      isfile = (\<lambda>p. p = ''proj/a.txt'' \<or> p = ''proj/sub/b.txt''),
      islink = (\<lambda>p. False),
      readable = (\<lambda>p. p = ''proj/a.txt'' \<or> p = ''proj/sub/b.txt'')\<rparr>"

definition example_adapter :: AgaveWrapper where
  "example_adapter =
     \<lparr>rootpath = ''/sample/biofab'', system_id = ''data-sd2e-community'',
      agave = \<lparr>api_server = ''https://api.sd2e.org'', username = ''ada'', password = ''pw'',
               client_name = ''cli'', api_key = ''key'', api_secret = ''secret''\<rparr>\<rparr>"

definition example_world :: world where
  "example_world = \<lparr>adapter = example_adapter, log = []\<rparr>"

definition example_process :: process where
  "example_process =
     \<lparr>directory = ''./proj/'', environ = [''AGAVE_SERVER'' \<mapsto> ''api.sd2e.org''],
      login_user = ''ada'', typed_password = ''pw''\<rparr>"

definition reliable :: remote where
  "reliable lg call = True"

definition unreachable :: remote where
  "unreachable lg call = False"

section \<open>Local directory trees\<close>

text \<open>
  A finite directory tree as the traversal meets it: a directory with its listing, in
  listing order, or an entry that \<^verbatim>\<open>os.path.isfile\<close> accepts, or an entry that neither
  \<^verbatim>\<open>os.path.isdir\<close> nor \<^verbatim>\<open>os.path.isfile\<close> accepts.
\<close>

datatype node = Directory "(string \<times> node) list" | RegularFile | Other

text \<open>The file system below the path \<open>p\<close> has the shape of the tree.\<close>

fun represents :: "filesystem \<Rightarrow> string \<Rightarrow> node \<Rightarrow> bool"
  and represents_children :: "filesystem \<Rightarrow> string \<Rightarrow> (string \<times> node) list \<Rightarrow> bool" where
  "represents fs p (Directory cs) =
     (isdir fs p \<and> listdir fs p = Some (map fst cs) \<and> represents_children fs p cs)"
| "represents fs p RegularFile = (\<not> isdir fs p \<and> isfile fs p)"
| "represents fs p Other = (\<not> isdir fs p \<and> \<not> isfile fs p)"
| "represents_children fs p [] = True"
| "represents_children fs p ((name, c) # cs) =
     (represents fs (os_path_join p name) c \<and> represents_children fs p cs)"

text \<open>The number of nested directories: the root directory alone has depth 1.\<close>

fun depth :: "node \<Rightarrow> nat" and depth_children :: "(string \<times> node) list \<Rightarrow> nat" where
  "depth (Directory cs) = Suc (depth_children cs)"
| "depth RegularFile = 0"
| "depth Other = 0"
| "depth_children [] = 0"
| "depth_children ((name, c) # cs) = max (depth c) (depth_children cs)"

text \<open>A file name: not empty and without a separator.\<close>

definition valid_name :: "string \<Rightarrow> bool" where
  "valid_name n = (n \<noteq> [] \<and> CHR ''/'' \<notin> set n)"

text \<open>
  The names \<^verbatim>\<open>os.listdir\<close> returns on a real file system: not empty, without a
  separator, and no name twice in one directory.
\<close>

fun wellformed :: "node \<Rightarrow> bool" and wellformed_children :: "(string \<times> node) list \<Rightarrow> bool" where
  "wellformed (Directory cs) = (distinct (map fst cs) \<and> wellformed_children cs)"
| "wellformed RegularFile = True"
| "wellformed Other = True"
| "wellformed_children [] = True"
| "wellformed_children ((name, c) # cs) =
     (name \<noteq> [] \<and> CHR ''/'' \<notin> set name \<and> wellformed c \<and> wellformed_children cs)"

text \<open>
  The entries of a tree in the order the traversal reaches them, each with its path
  from the root, as the list of names on the way, and its kind. The root is the entry
  with the empty path.
\<close>

datatype kind = IsDir | IsFile | IsOther

fun entries :: "node \<Rightarrow> (string list \<times> kind) list"
  and entries_children :: "(string \<times> node) list \<Rightarrow> (string list \<times> kind) list" where
  "entries (Directory cs) = ([], IsDir) # entries_children cs"
| "entries RegularFile = [([], IsFile)]"
| "entries Other = [([], IsOther)]"
| "entries_children [] = []"
| "entries_children ((name, c) # cs) =
     map (\<lambda>e. (name # fst e, snd e)) (entries c) @ entries_children cs"


definition regular_files :: "node \<Rightarrow> string list list" where
  "regular_files t = map fst (filter (\<lambda>e. snd e = IsFile) (entries t))"

definition other_entries :: "node \<Rightarrow> string list list" where
  "other_entries t = map fst (filter (\<lambda>e. snd e = IsOther) (entries t))"

text \<open>
  The path the traversal builds for an entry: one \<^verbatim>\<open>os.path.join\<close> per level, from the
  path it was started with.
\<close>

definition descend :: "string \<Rightarrow> string list \<Rightarrow> string" where
  "descend p names = foldl os_path_join p names"

text \<open>The names of a path written one after the other, each behind a separator.\<close>

definition slashed :: "string list \<Rightarrow> string" where
  "slashed names = concat (map (\<lambda>x. CHR ''/'' # x) names)"

text \<open>What the traversal does for one entry when nothing raises.\<close>

fun entry_events :: "AgaveWrapper \<Rightarrow> string \<Rightarrow> string \<Rightarrow> string list \<times> kind \<Rightarrow> event list" where
  "entry_events a lp rp (p, IsDir) =
     [Files_manage ''mkdir'' (descend rp p) (system_id a) (rootpath a)]"
| "entry_events a lp rp (p, IsFile) =
     [Open_rb (descend lp p),
      Files_importData (system_id a) (os_path_join (rootpath a) (descend rp (butlast p)))
        (descend lp p) (last p),
      Close_file (descend lp p)]"
| "entry_events a lp rp (p, IsOther) = []"

text \<open>Whether an event is about the entry with the given local and remote path.\<close>

fun about :: "string \<Rightarrow> string \<Rightarrow> event \<Rightarrow> bool" where
  "about l r (Agave_new s) = False"
| "about l r (Files_manage a path s q) = (path = r)"
| "about l r (Files_importData s q h f) = (h = l)"
| "about l r (Open_rb h) = (h = l)"
| "about l r (Close_file h) = (h = l)"

section \<open>Runs\<close>

text \<open>
  The adapter calls of a traversal, flattened: the traversal of a tree performs them one
  after the other and stops at the first that raises.
\<close>

datatype action = Mkdir string | Upload string string string

fun perform :: "filesystem \<Rightarrow> remote \<Rightarrow> action \<Rightarrow> world \<Rightarrow> (error + unit) \<times> world" where
  "perform fs sdk (Mkdir path) w = make_directory sdk path w"
| "perform fs sdk (Upload file_path dest_path filename) w =
     upload_file fs sdk file_path dest_path filename w"

fun perform_all :: "filesystem \<Rightarrow> remote \<Rightarrow> action list \<Rightarrow> world \<Rightarrow> (error + unit) \<times> world" where
  "perform_all fs sdk [] w = (Inr (), w)"
| "perform_all fs sdk (a # as) w =
     (case perform fs sdk a w of
        (Inl e, w1) \<Rightarrow> (Inl e, w1)
      | (Inr u, w1) \<Rightarrow> perform_all fs sdk as w1)"

fun schedule :: "string \<Rightarrow> string \<Rightarrow> node \<Rightarrow> action list"
  and schedule_children :: "string \<Rightarrow> string \<Rightarrow> (string \<times> node) list \<Rightarrow> action list" where
  "schedule lp rp (Directory cs) = Mkdir rp # schedule_children lp rp cs"
| "schedule lp rp RegularFile = []"
| "schedule lp rp Other = []"
| "schedule_children lp rp [] = []"
| "schedule_children lp rp ((name, c) # cs) =
     (case c of
        Directory ds \<Rightarrow> schedule (os_path_join lp name) (os_path_join rp name) c
      | RegularFile \<Rightarrow> [Upload (os_path_join lp name) rp name]
      | Other \<Rightarrow> [])
     @ schedule_children lp rp cs"

fun trace :: "AgaveWrapper \<Rightarrow> action \<Rightarrow> event list" where
  "trace a (Mkdir path) = [Files_manage ''mkdir'' path (system_id a) (rootpath a)]"
| "trace a (Upload file_path dest_path filename) =
     [Open_rb file_path,
      Files_importData (system_id a) (os_path_join (rootpath a) dest_path) file_path filename,
      Close_file file_path]"

text \<open>
  Every remote call among the events was accepted by the remote side, given the events
  before it.
\<close>

fun accepted :: "remote \<Rightarrow> event list \<Rightarrow> event list \<Rightarrow> bool" where
  "accepted sdk h [] = True"
| "accepted sdk h (e # es) = ((is_remote e \<longrightarrow> sdk h e) \<and> accepted sdk (h @ [e]) es)"

text \<open>
  The events of a run fit its result: a run that ends with the error of a remote call
  made that call last of all remote calls, after calls that were all accepted; any other
  run made accepted calls only.
\<close>

definition outcome :: "remote \<Rightarrow> event list \<Rightarrow> event list \<Rightarrow> error + unit \<Rightarrow> bool" where
  "outcome sdk h es r =
     (case r of
        Inl (RemoteError c) \<Rightarrow>
          (\<exists>pre post. es = pre @ c # post \<and> accepted sdk h pre \<and> is_remote c
             \<and> \<not> sdk (h @ pre) c \<and> filter is_remote post = [])
      | _ \<Rightarrow> accepted sdk h es)"

definition extends :: "remote \<Rightarrow> world \<Rightarrow> error + unit \<Rightarrow> world \<Rightarrow> bool" where
  "extends sdk w r w' =
     (adapter w' = adapter w \<and> (\<exists>es. log w' = log w @ es \<and> outcome sdk (log w) es r))"

text \<open>The tree of the concrete run.\<close>

definition example_tree :: node where
  "example_tree =
     Directory [(''a.txt'', RegularFile), (''sub'', Directory [(''b.txt'', RegularFile)]),
                (''pipe'', Other)]"

text \<open>A remote side that raises on every upload, and accepts everything else.\<close>

definition refuses_uploads :: remote where
  "refuses_uploads lg call = (\<not> is_upload call)"

text \<open>A remote side that raises once it has received \<open>n\<close> calls: a quota.\<close>

definition quota :: "nat \<Rightarrow> remote" where
  "quota n lg call = (length (filter is_remote lg) < n)"

text \<open>The events of the concrete run when nothing raises.\<close>

definition example_log :: "event list" where
  "example_log =
     [Files_manage ''mkdir'' ''proj'' ''data-sd2e-community'' ''/sample/biofab'',
      Open_rb ''proj/a.txt'',
      Files_importData ''data-sd2e-community'' ''/sample/biofab/proj'' ''proj/a.txt'' ''a.txt'',
      Close_file ''proj/a.txt'',
      Files_manage ''mkdir'' ''proj/sub'' ''data-sd2e-community'' ''/sample/biofab'',
      Open_rb ''proj/sub/b.txt'',
      Files_importData ''data-sd2e-community'' ''/sample/biofab/proj/sub'' ''proj/sub/b.txt''
        ''b.txt'',
      Close_file ''proj/sub/b.txt'']"

text \<open>
  The directory \<^verbatim>\<open>proj\<close> holds the file \<^verbatim>\<open>a.txt\<close> and the symbolic link \<^verbatim>\<open>link\<close> to
  it: \<^verbatim>\<open>os.path.isfile\<close> looks through the link.
\<close>

definition linked_fs :: filesystem where
  "linked_fs =
     \<lparr>listdir = (\<lambda>p. if p = ''proj'' then Some [''a.txt'', ''link''] else None),
      isdir = (\<lambda>p. p = ''proj''),
      isfile = (\<lambda>p. p = ''proj/a.txt'' \<or> p = ''proj/link''),
      islink = (\<lambda>p. p = ''proj/link''),
      readable = (\<lambda>p. p = ''proj/a.txt'' \<or> p = ''proj/link'')\<rparr>"

section \<open>The adapter\<close>

lemma init_outcome:
  assumes "AgaveWrapper_init env sdk params lg = (r, lg')"
  shows "(\<exists>key. r = Inl (KeyError key) \<and> lg' = lg)
       \<or> (env ''AGAVE_SERVER'' \<noteq> None \<and> env ''AGAVE_CLIENT'' \<noteq> None
            \<and> env ''AGAVE_API_KEY'' \<noteq> None \<and> env ''AGAVE_API_SECRET'' \<noteq> None)"
  using assms
  by (auto simp: AgaveWrapper_init_def Let_def split: option.splits if_splits)

lemma init_outcome_main:
  assumes "AgaveWrapper_init env sdk
     [''rootpath'' \<mapsto> r0, ''system_id'' \<mapsto> s0, ''username'' \<mapsto> u0, ''password'' \<mapsto> p0] lg = (r, lg')"
  shows "(\<exists>key. key \<in> {''AGAVE_SERVER'', ''AGAVE_CLIENT'', ''AGAVE_API_KEY'', ''AGAVE_API_SECRET''}
            \<and> r = Inl (KeyError key) \<and> lg' = lg)
       \<or> (env ''AGAVE_SERVER'' \<noteq> None \<and> env ''AGAVE_CLIENT'' \<noteq> None
            \<and> env ''AGAVE_API_KEY'' \<noteq> None \<and> env ''AGAVE_API_SECRET'' \<noteq> None)"
  using assms
  by (auto simp: AgaveWrapper_init_def Let_def split: option.splits if_splits)

text \<open>
  C6. When one of the four environment variables the constructor reads is absent,
  \<^verbatim>\<open>AgaveWrapper.__init__\<close> raises a \<^verbatim>\<open>KeyError\<close> and leaves the log as it was (the
  \<^verbatim>\<open>Agave\<close> constructor is not reached), whatever the parameters; and \<^verbatim>\<open>main\<close> ends
  with the \<^verbatim>\<open>KeyError\<close> of one of these variables and an empty log: no traversal, no
  remote call.
\<close>

theorem missing_environment_fails_fast:
  assumes "k \<in> {''AGAVE_SERVER'', ''AGAVE_CLIENT'', ''AGAVE_API_KEY'', ''AGAVE_API_SECRET''}"
    and "environ p k = None"
  shows "(\<exists>key. AgaveWrapper_init (environ p) sdk params lg = (Inl (KeyError key), lg))
       \<and> (\<exists>key. key \<in> {''AGAVE_SERVER'', ''AGAVE_CLIENT'', ''AGAVE_API_KEY'', ''AGAVE_API_SECRET''}
              \<and> main limit p fs sdk = Some (Inl (KeyError key), []))"
proof -
  have missing: "\<not> (environ p ''AGAVE_SERVER'' \<noteq> None \<and> environ p ''AGAVE_CLIENT'' \<noteq> None
            \<and> environ p ''AGAVE_API_KEY'' \<noteq> None \<and> environ p ''AGAVE_API_SECRET'' \<noteq> None)"
    using assms by auto
  obtain r lg' where i: "AgaveWrapper_init (environ p) sdk params lg = (r, lg')"
    by (cases "AgaveWrapper_init (environ p) sdk params lg")
  from init_outcome [OF i] missing
  have 1: "\<exists>key. AgaveWrapper_init (environ p) sdk params lg = (Inl (KeyError key), lg)"
    using i by blast
  obtain r2 lg2 where j: "AgaveWrapper_init (environ p) sdk
     [''rootpath'' \<mapsto> ''/sample/biofab'', ''system_id'' \<mapsto> ''data-sd2e-community'',
      ''username'' \<mapsto> login_user p, ''password'' \<mapsto> typed_password p] [] = (r2, lg2)"
    by (cases "AgaveWrapper_init (environ p) sdk
     [''rootpath'' \<mapsto> ''/sample/biofab'', ''system_id'' \<mapsto> ''data-sd2e-community'',
      ''username'' \<mapsto> login_user p, ''password'' \<mapsto> typed_password p] []")
  from init_outcome_main [OF j] missing
  obtain key where k: "key \<in> {''AGAVE_SERVER'', ''AGAVE_CLIENT'', ''AGAVE_API_KEY'', ''AGAVE_API_SECRET''}"
    and "r2 = Inl (KeyError key)" "lg2 = []"
    by blast
  with j have "main limit p fs sdk = Some (Inl (KeyError key), [])"
    by (simp add: main_def Let_def)
  with k 1 show ?thesis by blast
qed

theorem missing_environment_fails_fast_witness:
  "''AGAVE_CLIENT'' \<in> {''AGAVE_SERVER'', ''AGAVE_CLIENT'', ''AGAVE_API_KEY'', ''AGAVE_API_SECRET''}
   \<and> environ example_process ''AGAVE_CLIENT'' = None
   \<and> main 3 example_process example_fs reliable = Some (Inl (KeyError ''AGAVE_CLIENT''), [])"
proof -
  have k: "''AGAVE_CLIENT'' \<in> {''AGAVE_SERVER'', ''AGAVE_CLIENT'', ''AGAVE_API_KEY'', ''AGAVE_API_SECRET''}"
    by simp
  have e: "environ example_process ''AGAVE_CLIENT'' = None"
    by (simp add: example_process_def)
  from missing_environment_fails_fast [OF k e, of reliable Map.empty "[]" 3 example_fs]
  obtain key where "main 3 example_process example_fs reliable = Some (Inl (KeyError key), [])"
    by blast
  moreover have "main 3 example_process example_fs reliable
      = Some (Inl (KeyError ''AGAVE_CLIENT''), [])"
    by (simp add: main_def AgaveWrapper_init_def example_process_def Let_def)
  ultimately show ?thesis using k e by simp
qed

text \<open>
  C7. \<^verbatim>\<open>upload_file\<close> opens the local file, hands \<^verbatim>\<open>upload_fileobj\<close> that handle with the
  same destination path and file name, and closes the handle whether the upload returns
  or raises: the log grows by the opening, the one \<^verbatim>\<open>importData\<close> call and the closing,
  the result is that of the call, and the set of open files is what it was before. A file
  that cannot be opened raises at once and nothing is logged.
\<close>

theorem upload_file_scoped_handle:
  "upload_file fs sdk file_path dest_path filename w =
     (if readable fs file_path then
        (let call = Files_importData (system_id (adapter w))
                      (os_path_join (rootpath (adapter w)) dest_path) file_path filename
         in (if sdk (log w @ [Open_rb file_path]) call then Inr () else Inl (RemoteError call),
             w\<lparr>log := log w @ [Open_rb file_path, call, Close_file file_path]\<rparr>))
      else (Inl (OSError file_path), w))
   \<and> fst (upload_file fs sdk file_path dest_path filename w) =
       (if readable fs file_path
        then fst (upload_fileobj sdk file_path dest_path filename
                    (w\<lparr>log := log w @ [Open_rb file_path]\<rparr>))
        else Inl (OSError file_path))
   \<and> open_files (log (snd (upload_file fs sdk file_path dest_path filename w))) = open_files (log w)"
  by (simp add: upload_file_def upload_fileobj_def Let_def open_files_def)

text \<open>
  C8. No operation of the adapter changes the adapter: after \<^verbatim>\<open>make_directory\<close>,
  \<^verbatim>\<open>upload_fileobj\<close>, \<^verbatim>\<open>upload_file\<close>, and after any sequence of them, the root path, the
  system identifier and the session are what they were.
\<close>

theorem adapter_never_mutated:
  "adapter (snd (make_directory sdk path w)) = adapter w \<and>
   adapter (snd (upload_fileobj sdk file_obj dest_path filename w)) = adapter w \<and>
   adapter (snd (upload_file fs sdk file_path dest_path filename w)) = adapter w \<and>
   adapter (invoke_all fs sdk calls w) = adapter w"
proof -
  have m: "adapter (snd (make_directory sdk path w)) = adapter w" for path w
    by (simp add: make_directory_def Let_def)
  have o: "adapter (snd (upload_fileobj sdk h d f w)) = adapter w" for h d f w
    by (simp add: upload_fileobj_def Let_def)
  have u: "adapter (snd (upload_file fs sdk p d f w)) = adapter w" for p d f w
    by (simp add: upload_file_def upload_fileobj_def Let_def)
  have "adapter (snd (invoke fs sdk x w)) = adapter w" for x w
    by (cases x) (simp_all add: m o u)
  then have "adapter (invoke_all fs sdk calls w) = adapter w"
    by (induction calls arbitrary: w) simp_all
  with m o u show ?thesis by simp
qed

section \<open>The traversal\<close>

text \<open>
  C9. \<^verbatim>\<open>copy_from\<close> issues the create-directory call for its remote path before it
  touches the local path: when that call raises, the run ends with its error whatever
  the file system holds; when it returns and the local path cannot be listed, the run
  ends with the file system's error, and in both cases the log has grown by exactly that
  one call.
\<close>

theorem copy_from_mkdir_before_listing:
  "(\<not> sdk (log w) (Files_manage ''mkdir'' remote_path (system_id (adapter w)) (rootpath (adapter w))) \<longrightarrow>
      copy_from (Suc n) fs sdk local_path remote_path w =
        Some (Inl (RemoteError (Files_manage ''mkdir'' remote_path (system_id (adapter w)) (rootpath (adapter w)))),
              w\<lparr>log := log w @ [Files_manage ''mkdir'' remote_path (system_id (adapter w)) (rootpath (adapter w))]\<rparr>))
   \<and> (sdk (log w) (Files_manage ''mkdir'' remote_path (system_id (adapter w)) (rootpath (adapter w)))
        \<and> listdir fs local_path = None \<longrightarrow>
      copy_from (Suc n) fs sdk local_path remote_path w =
        Some (Inl (OSError local_path),
              w\<lparr>log := log w @ [Files_manage ''mkdir'' remote_path (system_id (adapter w)) (rootpath (adapter w))]\<rparr>))"
  by (simp add: make_directory_def Let_def)

theorem copy_from_mkdir_before_listing_witness:
  "\<not> unreachable (log example_world)
       (Files_manage ''mkdir'' ''proj'' (system_id (adapter example_world)) (rootpath (adapter example_world)))
   \<and> copy_from (Suc 2) example_fs unreachable ''proj'' ''proj'' example_world =
        Some (Inl (RemoteError (Files_manage ''mkdir'' ''proj'' ''data-sd2e-community'' ''/sample/biofab'')),
              example_world\<lparr>log := [Files_manage ''mkdir'' ''proj'' ''data-sd2e-community'' ''/sample/biofab'']\<rparr>)
   \<and> reliable (log example_world)
       (Files_manage ''mkdir'' ''gone'' (system_id (adapter example_world)) (rootpath (adapter example_world)))
   \<and> listdir example_fs ''missing'' = None
   \<and> copy_from (Suc 2) example_fs reliable ''missing'' ''gone'' example_world =
        Some (Inl (OSError ''missing''),
              example_world\<lparr>log := [Files_manage ''mkdir'' ''gone'' ''data-sd2e-community'' ''/sample/biofab'']\<rparr>)"
proof -
  have a: "\<not> unreachable (log example_world)
       (Files_manage ''mkdir'' ''proj'' (system_id (adapter example_world)) (rootpath (adapter example_world)))"
    by (simp add: unreachable_def)
  have b: "reliable (log example_world)
       (Files_manage ''mkdir'' ''gone'' (system_id (adapter example_world)) (rootpath (adapter example_world)))"
    by (simp add: reliable_def)
  have c: "listdir example_fs ''missing'' = None"
    by (simp add: example_fs_def)
  have v: "system_id (adapter example_world) = ''data-sd2e-community''"
    "rootpath (adapter example_world) = ''/sample/biofab''" "log example_world = []"
    by (simp_all add: example_world_def example_adapter_def)
  from copy_from_mkdir_before_listing [of unreachable example_world "''proj''" 2 example_fs "''proj''"] a
  have 1: "copy_from (Suc 2) example_fs unreachable ''proj'' ''proj'' example_world =
        Some (Inl (RemoteError (Files_manage ''mkdir'' ''proj'' ''data-sd2e-community'' ''/sample/biofab'')),
              example_world\<lparr>log := [Files_manage ''mkdir'' ''proj'' ''data-sd2e-community'' ''/sample/biofab'']\<rparr>)"
    by (simp add: v)
  from copy_from_mkdir_before_listing [of reliable example_world "''gone''" 2 example_fs "''missing''"] b c
  have 2: "copy_from (Suc 2) example_fs reliable ''missing'' ''gone'' example_world =
        Some (Inl (OSError ''missing''),
              example_world\<lparr>log := [Files_manage ''mkdir'' ''gone'' ''data-sd2e-community'' ''/sample/biofab'']\<rparr>)"
    by (simp add: v)
  from a b c 1 2 show ?thesis by blast
qed

subsection \<open>The traversal of a tree is a flat sequence of adapter calls\<close>

lemma perform_all_append:
  "perform_all fs sdk (xs @ ys) w =
     (case perform_all fs sdk xs w of
        (Inl e, w1) \<Rightarrow> (Inl e, w1)
      | (Inr u, w1) \<Rightarrow> perform_all fs sdk ys w1)"
  by (induction xs arbitrary: w) (auto split: prod.splits sum.splits)

lemma copy_from_schedule:
  "represents fs lp t \<Longrightarrow> depth t \<le> limit \<Longrightarrow> t \<noteq> RegularFile \<Longrightarrow> t \<noteq> Other \<Longrightarrow>
     copy_from limit fs sdk lp rp w = Some (perform_all fs sdk (schedule lp rp t) w)"
  and copy_from_loop_schedule:
  "represents_children fs lp cs \<Longrightarrow> depth_children cs \<le> limit \<Longrightarrow>
     copy_from_loop limit fs sdk lp rp (map fst cs) w =
       Some (perform_all fs sdk (schedule_children lp rp cs) w)"
proof (induction t and cs arbitrary: limit lp rp w and limit lp rp w
    rule: depth_depth_children.induct)
  case (1 cs)
  from "1.prems" obtain n where n: "limit = Suc n" and d: "depth_children cs \<le> n"
    by (cases limit) auto
  from "1.prems" have l: "listdir fs lp = Some (map fst cs)" and r: "represents_children fs lp cs"
    by auto
  obtain res w1 where m: "make_directory sdk rp w = (res, w1)"
    by (cases "make_directory sdk rp w")
  show ?case
  proof (cases res)
    case (Inl e)
    with m n show ?thesis by simp
  next
    case (Inr u)
    with m n l "1.IH" [OF r d, of rp w1] show ?thesis by simp
  qed
next
  case 2
  then show ?case by simp
next
  case 3
  then show ?case by simp
next
  case 4
  then show ?case by simp
next
  case (5 name c cs)
  from "5.prems" have rc: "represents fs (os_path_join lp name) c"
    and rcs: "represents_children fs lp cs"
    and dc: "depth c \<le> limit" and dcs: "depth_children cs \<le> limit"
    by auto
  note tail = "5.IH"(2) [OF rcs dcs]
  show ?case
  proof (cases c)
    case (Directory ds)
    with rc have isd: "isdir fs (os_path_join lp name)" by simp
    from Directory have ne: "c \<noteq> RegularFile" "c \<noteq> Other" by simp_all
    note sub = "5.IH"(1) [OF rc dc ne, of "os_path_join rp name" w]
    obtain res w1 where p: "perform_all fs sdk
        (schedule (os_path_join lp name) (os_path_join rp name) c) w = (res, w1)"
      by (cases "perform_all fs sdk (schedule (os_path_join lp name) (os_path_join rp name) c) w")
    show ?thesis
    proof (cases res)
      case (Inl e)
      with p sub isd Directory show ?thesis
        by (simp add: perform_all_append Let_def del: schedule.simps)
    next
      case (Inr u)
      with p sub isd Directory tail [of rp w1] show ?thesis
        by (simp add: perform_all_append Let_def del: schedule.simps)
    qed
  next
    case RegularFile
    with rc have k: "\<not> isdir fs (os_path_join lp name)" "isfile fs (os_path_join lp name)"
      by simp_all
    obtain res w1 where u: "upload_file fs sdk (os_path_join lp name) rp name w = (res, w1)"
      by (cases "upload_file fs sdk (os_path_join lp name) rp name w")
    show ?thesis
    proof (cases res)
      case (Inl e)
      with u k RegularFile show ?thesis by (simp add: Let_def)
    next
      case (Inr v)
      with u k RegularFile tail [of rp w1] show ?thesis by (simp add: Let_def)
    qed
  next
    case Other
    with rc have k: "\<not> isdir fs (os_path_join lp name)" "\<not> isfile fs (os_path_join lp name)"
      by simp_all
    with Other tail [of rp w] show ?thesis by (simp add: Let_def)
  qed
qed

subsection \<open>The first error ends the run\<close>

lemma accepted_append:
  "accepted sdk h (xs @ ys) = (accepted sdk h xs \<and> accepted sdk (h @ xs) ys)"
  by (induction xs arbitrary: h) auto

lemma outcome_Inr: "outcome sdk h es (Inr u) = accepted sdk h es"
  by (simp add: outcome_def)

lemma outcome_seq:
  assumes "accepted sdk h es1" and "outcome sdk (h @ es1) es2 r"
  shows "outcome sdk h (es1 @ es2) r"
proof (cases r)
  case (Inl e)
  show ?thesis
  proof (cases e)
    case (RemoteError c)
    with Inl assms(2) obtain pre post where
      "es2 = pre @ c # post" "accepted sdk (h @ es1) pre" "is_remote c"
      "\<not> sdk (h @ es1 @ pre) c" "filter is_remote post = []"
      by (auto simp: outcome_def)
    with assms(1) have "es1 @ es2 = (es1 @ pre) @ c # post \<and> accepted sdk h (es1 @ pre)
        \<and> is_remote c \<and> \<not> sdk (h @ (es1 @ pre)) c \<and> filter is_remote post = []"
      by (simp add: accepted_append)
    then show ?thesis unfolding outcome_def Inl RemoteError by (simp only: sum.case error.case) blast
  next
    case (KeyError k)
    with Inl assms show ?thesis by (simp add: outcome_def accepted_append)
  next
    case (OSError p)
    with Inl assms show ?thesis by (simp add: outcome_def accepted_append)
  qed
next
  case (Inr u)
  with assms show ?thesis by (simp add: outcome_def accepted_append)
qed

lemma extends_refl: "extends sdk w (Inr u) w"
  by (simp add: extends_def outcome_def)

lemma extends_trans:
  assumes "extends sdk w (Inr u) w1" and "extends sdk w1 r w2"
  shows "extends sdk w r w2"
proof -
  from assms(1) obtain es1 where 1: "adapter w1 = adapter w" "log w1 = log w @ es1"
    "accepted sdk (log w) es1"
    by (auto simp: extends_def outcome_Inr)
  from assms(2) obtain es2 where 2: "adapter w2 = adapter w1" "log w2 = log w1 @ es2"
    "outcome sdk (log w1) es2 r"
    by (auto simp: extends_def)
  from 1 2 have "outcome sdk (log w) (es1 @ es2) r"
    by (simp add: outcome_seq)
  with 1 2 show ?thesis by (auto simp: extends_def)
qed

lemma make_directory_extends:
  "make_directory sdk path w = (r, w') \<Longrightarrow> extends sdk w r w'"
proof -
  assume a: "make_directory sdk path w = (r, w')"
  let ?c = "Files_manage ''mkdir'' path (system_id (adapter w)) (rootpath (adapter w))"
  show ?thesis
  proof (cases "sdk (log w) ?c")
    case True
    with a show ?thesis by (auto simp: make_directory_def Let_def extends_def outcome_def)
  next
    case False
    with a have "r = Inl (RemoteError ?c)" "w' = w\<lparr>log := log w @ [?c]\<rparr>"
      by (auto simp: make_directory_def Let_def)
    moreover have "outcome sdk (log w) ([] @ ?c # []) (Inl (RemoteError ?c))"
      unfolding outcome_def using False by (simp only: sum.case error.case) fastforce
    ultimately show ?thesis by (simp add: extends_def)
  qed
qed

lemma upload_file_extends:
  "upload_file fs sdk file_path dest_path filename w = (r, w') \<Longrightarrow> extends sdk w r w'"
proof -
  assume a: "upload_file fs sdk file_path dest_path filename w = (r, w')"
  let ?c = "Files_importData (system_id (adapter w))
              (os_path_join (rootpath (adapter w)) dest_path) file_path filename"
  show ?thesis
  proof (cases "readable fs file_path")
    case False
    with a show ?thesis by (auto simp: upload_file_def extends_def outcome_def)
  next
    case True
    note rd = this
    show ?thesis
    proof (cases "sdk (log w @ [Open_rb file_path]) ?c")
      case True
      with a rd show ?thesis
        by (auto simp: upload_file_def upload_fileobj_def Let_def extends_def outcome_def)
    next
      case False
      with a rd have "r = Inl (RemoteError ?c)"
        "w' = w\<lparr>log := log w @ [Open_rb file_path, ?c, Close_file file_path]\<rparr>"
        by (auto simp: upload_file_def upload_fileobj_def Let_def)
      moreover have "outcome sdk (log w) ([Open_rb file_path] @ ?c # [Close_file file_path])
          (Inl (RemoteError ?c))"
        unfolding outcome_def using False by (simp only: sum.case error.case) fastforce
      ultimately show ?thesis by (simp add: extends_def)
    qed
  qed
qed

lemma copy_from_extends:
  "copy_from n fs sdk lp rp w = Some (r, w') \<Longrightarrow> extends sdk w r w'"
  and copy_from_loop_extends:
  "copy_from_loop n fs sdk lp rp files w = Some (r, w') \<Longrightarrow> extends sdk w r w'"
proof (induction n fs sdk lp rp w and n fs sdk lp rp files w arbitrary: r w' and r w'
    rule: copy_from_copy_from_loop.induct)
  case (1 fs sdk lp rp w)
  then show ?case by simp
next
  case (2 n fs sdk lp rp w)
  obtain res w1 where m: "make_directory sdk rp w = (res, w1)"
    by (cases "make_directory sdk rp w")
  note e1 = make_directory_extends [OF m]
  show ?case
  proof (cases res)
    case (Inl e)
    with m "2.prems" e1 show ?thesis by simp
  next
    case (Inr u)
    note ok = this
    show ?thesis
    proof (cases "listdir fs lp")
      case None
      with m ok "2.prems" have "r = Inl (OSError lp)" "w' = w1" by simp_all
      with e1 ok show ?thesis by (simp add: extends_def outcome_def)
    next
      case (Some files)
      with m ok "2.prems" have "copy_from_loop n fs sdk lp rp files w1 = Some (r, w')"
        by simp
      from "2.IH" [OF m [symmetric] ok Some this] e1 ok show ?thesis
        by (blast intro: extends_trans)
    qed
  qed
next
  case (3 n fs sdk lp rp w)
  then show ?case by (auto simp: extends_refl)
next
  case (4 n fs sdk lp rp name names w)
  let ?l = "os_path_join lp name" and ?r = "os_path_join rp name"
  show ?case
  proof (cases "isdir fs ?l")
    case True
    with "4.prems" obtain res w1 where c: "copy_from n fs sdk ?l ?r w = Some (res, w1)"
      by (auto simp: Let_def split: option.splits)
    note e1 = "4.IH"(1) [OF refl refl True c]
    show ?thesis
    proof (cases res)
      case (Inl e)
      with c True "4.prems" e1 show ?thesis by (simp add: Let_def)
    next
      case (Inr u)
      with c True "4.prems" have "copy_from_loop n fs sdk lp rp names w1 = Some (r, w')"
        by (simp add: Let_def)
      from "4.IH"(2) [OF refl refl True c refl Inr this] e1 Inr show ?thesis
        by (blast intro: extends_trans)
    qed
  next
    case False
    note nd = this
    show ?thesis
    proof (cases "isfile fs ?l")
      case True
      obtain res w1 where u: "upload_file fs sdk ?l rp name w = (res, w1)"
        by (cases "upload_file fs sdk ?l rp name w")
      note e1 = upload_file_extends [OF u]
      show ?thesis
      proof (cases res)
        case (Inl e)
        with u nd True "4.prems" e1 show ?thesis by (simp add: Let_def)
      next
        case (Inr v)
        with u nd True "4.prems" have "copy_from_loop n fs sdk lp rp names w1 = Some (r, w')"
          by (simp add: Let_def)
        from "4.IH"(3) [OF refl refl nd True u [symmetric] Inr this] e1 Inr show ?thesis
          by (blast intro: extends_trans)
      qed
    next
      case False
      with nd "4.prems" have "copy_from_loop n fs sdk lp rp names w = Some (r, w')"
        by (simp add: Let_def)
      from "4.IH"(4) [OF refl refl nd False this] show ?thesis .
    qed
  qed
qed

lemma first_rejected_unique:
  assumes eq: "pre @ c # post = pre' @ c' # post'"
    and acc: "accepted sdk h pre'"
    and quiet: "filter is_remote post' = []"
    and rem: "is_remote c"
    and rej: "\<not> sdk (h @ pre) c"
  shows "pre = pre' \<and> c = c' \<and> post = post'"
proof -
  from eq obtain us where
    "(pre = pre' @ us \<and> us @ c # post = c' # post') \<or> (pre @ us = pre' \<and> c # post = us @ c' # post')"
    by (auto simp: append_eq_append_conv2)
  then show ?thesis
  proof
    assume a: "pre = pre' @ us \<and> us @ c # post = c' # post'"
    show ?thesis
    proof (cases us)
      case Nil
      with a show ?thesis by simp
    next
      case (Cons u us')
      with a have "c \<in> set post'" by auto
      with rem have "c \<in> set (filter is_remote post')" by simp
      with quiet show ?thesis by simp
    qed
  next
    assume a: "pre @ us = pre' \<and> c # post = us @ c' # post'"
    show ?thesis
    proof (cases us)
      case Nil
      with a show ?thesis by simp
    next
      case (Cons u us')
      with a have "pre' = pre @ c # us'" by auto
      with acc have "accepted sdk (h @ pre) (c # us')" by (simp add: accepted_append)
      with rem rej show ?thesis by simp
    qed
  qed
qed


subsection \<open>The concrete run, evaluated\<close>

lemma example_represents: "represents example_fs ''proj'' example_tree"
  by (simp add: example_tree_def example_fs_def os_path_join_def)

lemma example_depth: "depth example_tree = 2"
  by (simp add: example_tree_def)

lemma example_run_refused:
  "copy_from 2 example_fs refuses_uploads ''proj'' ''proj'' example_world =
     Some (Inl (RemoteError (Files_importData ''data-sd2e-community'' ''/sample/biofab/proj''
                  ''proj/a.txt'' ''a.txt'')),
           example_world\<lparr>log :=
             [Files_manage ''mkdir'' ''proj'' ''data-sd2e-community'' ''/sample/biofab'',
              Open_rb ''proj/a.txt'',
              Files_importData ''data-sd2e-community'' ''/sample/biofab/proj'' ''proj/a.txt'' ''a.txt'',
              Close_file ''proj/a.txt'']\<rparr>)"
  by (simp add: numeral_2_eq_2 make_directory_def upload_file_def upload_fileobj_def
      example_fs_def example_world_def example_adapter_def refuses_uploads_def os_path_join_def Let_def)

lemma example_run:
  "copy_from 2 example_fs reliable ''proj'' ''proj'' example_world =
     Some (Inr (),
           example_world\<lparr>log :=
             [Files_manage ''mkdir'' ''proj'' ''data-sd2e-community'' ''/sample/biofab'',
              Open_rb ''proj/a.txt'',
              Files_importData ''data-sd2e-community'' ''/sample/biofab/proj'' ''proj/a.txt'' ''a.txt'',
              Close_file ''proj/a.txt'',
              Files_manage ''mkdir'' ''proj/sub'' ''data-sd2e-community'' ''/sample/biofab'',
              Open_rb ''proj/sub/b.txt'',
              Files_importData ''data-sd2e-community'' ''/sample/biofab/proj/sub''
                ''proj/sub/b.txt'' ''b.txt'',
              Close_file ''proj/sub/b.txt'']\<rparr>)"
  by (simp add: numeral_2_eq_2 make_directory_def upload_file_def upload_fileobj_def
      example_fs_def example_world_def example_adapter_def reliable_def os_path_join_def Let_def)

subsection \<open>The events of a run on a tree\<close>

lemma descend_Nil: "descend p [] = p"
  by (simp add: descend_def)

lemma descend_Cons: "descend p (n # ns) = descend (os_path_join p n) ns"
  by (simp add: descend_def)

lemma perform_Inr:
  assumes "perform fs sdk a w = (Inr u, w1)"
  shows "w1 = w\<lparr>log := log w @ trace (adapter w) a\<rparr>"
proof (cases a)
  case (Mkdir path)
  with assms show ?thesis
    by (auto simp: make_directory_def Let_def split: if_splits)
next
  case (Upload file_path dest_path filename)
  with assms show ?thesis
    by (auto simp: upload_file_def upload_fileobj_def Let_def split: if_splits)
qed

lemma perform_prefix:
  assumes "perform fs sdk a w = (r, w1)"
  shows "adapter w1 = adapter w \<and> (\<exists>es. log w1 = log w @ es \<and> prefix es (trace (adapter w) a))"
proof (cases a)
  case (Mkdir path)
  with assms show ?thesis
    by (auto simp: make_directory_def Let_def split: if_splits)
next
  case (Upload file_path dest_path filename)
  with assms show ?thesis
    by (auto simp: upload_file_def upload_fileobj_def Let_def split: if_splits)
qed

lemma perform_all_Inr:
  "perform_all fs sdk as w = (Inr u, w') \<Longrightarrow>
     w' = w\<lparr>log := log w @ concat (map (trace (adapter w)) as)\<rparr>"
proof (induction as arbitrary: w)
  case Nil
  then show ?case by simp
next
  case (Cons a as)
  obtain r w1 where p: "perform fs sdk a w = (r, w1)"
    by (cases "perform fs sdk a w")
  show ?case
  proof (cases r)
    case (Inl e)
    with p Cons.prems show ?thesis by simp
  next
    case (Inr v)
    with p have w1: "w1 = w\<lparr>log := log w @ trace (adapter w) a\<rparr>"
      by (simp add: perform_Inr)
    from p Inr Cons.prems have "perform_all fs sdk as w1 = (Inr u, w')" by simp
    from Cons.IH [OF this] w1 show ?thesis by simp
  qed
qed

lemma perform_all_prefix:
  "perform_all fs sdk as w = (r, w') \<Longrightarrow>
     adapter w' = adapter w \<and>
     (\<exists>es. log w' = log w @ es \<and> prefix es (concat (map (trace (adapter w)) as)))"
proof (induction as arbitrary: w)
  case Nil
  then show ?case by auto
next
  case (Cons a as)
  obtain r1 w1 where p: "perform fs sdk a w = (r1, w1)"
    by (cases "perform fs sdk a w")
  show ?case
  proof (cases r1)
    case (Inl e)
    with p Cons.prems have "w' = w1" by simp
    with perform_prefix [OF p] show ?thesis
      by (auto intro: prefix_prefix)
  next
    case (Inr v)
    with p have w1: "w1 = w\<lparr>log := log w @ trace (adapter w) a\<rparr>"
      by (simp add: perform_Inr)
    from p Inr Cons.prems have "perform_all fs sdk as w1 = (r, w')" by simp
    from Cons.IH [OF this] w1 show ?thesis by auto
  qed
qed

lemma entries_children_nonempty:
  "e \<in> set (entries_children cs) \<Longrightarrow> fst e \<noteq> []"
  by (induction cs) auto

lemma entry_events_shift:
  assumes "snd e = IsFile \<longrightarrow> fst e \<noteq> []"
  shows "entry_events a lp rp (n # fst e, snd e) =
         entry_events a (os_path_join lp n) (os_path_join rp n) e"
proof (cases e)
  case (Pair p k)
  with assms show ?thesis
    by (cases k) (simp_all add: descend_Cons)
qed

lemma entry_events_shift_directory:
  "concat (map (entry_events a lp rp \<circ> (\<lambda>e. (n # fst e, snd e))) (entries (Directory ds))) =
   concat (map (entry_events a (os_path_join lp n) (os_path_join rp n)) (entries (Directory ds)))"
proof -
  have "map (entry_events a lp rp \<circ> (\<lambda>e. (n # fst e, snd e))) (entries (Directory ds)) =
      map (entry_events a (os_path_join lp n) (os_path_join rp n)) (entries (Directory ds))"
  proof (rule map_cong [OF refl])
    fix e assume "e \<in> set (entries (Directory ds))"
    then have "snd e = IsFile \<longrightarrow> fst e \<noteq> []"
      by (auto dest: entries_children_nonempty)
    then show "(entry_events a lp rp \<circ> (\<lambda>e. (n # fst e, snd e))) e =
      entry_events a (os_path_join lp n) (os_path_join rp n) e"
      unfolding comp_def by (rule entry_events_shift)
  qed
  then show ?thesis by (rule arg_cong)
qed

lemma schedule_entries:
  "t \<noteq> RegularFile \<Longrightarrow> t \<noteq> Other \<Longrightarrow>
     concat (map (trace a) (schedule lp rp t)) = concat (map (entry_events a lp rp) (entries t))"
  and schedule_children_entries:
  "concat (map (trace a) (schedule_children lp rp cs)) =
     concat (map (entry_events a lp rp) (entries_children cs))"
proof (induction t and cs arbitrary: lp rp and lp rp rule: entries_entries_children.induct)
  case (1 cs)
  then show ?case by (simp add: descend_Nil)
next
  case 2
  then show ?case by simp
next
  case 3
  then show ?case by simp
next
  case 4
  then show ?case by simp
next
  case (5 name c cs)
  show ?case
  proof (cases c)
    case (Directory ds)
    then have "concat (map (trace a) (schedule (os_path_join lp name) (os_path_join rp name) c)) =
        concat (map (entry_events a (os_path_join lp name) (os_path_join rp name)) (entries c))"
      by (intro "5.IH"(1)) simp_all
    with Directory "5.IH"(2) [of lp rp] show ?thesis
      by (simp add: entry_events_shift_directory del: entries.simps schedule.simps)
  next
    case RegularFile
    with "5.IH"(2) [of lp rp] show ?thesis
      by (simp add: descend_Cons descend_Nil)
  next
    case Other
    with "5.IH"(2) [of lp rp] show ?thesis by simp
  qed
qed

text \<open>The run on a tree, in terms of its entries.\<close>

lemma copy_from_entries:
  assumes "represents fs lp (Directory cs)" and "depth (Directory cs) \<le> limit"
    and "copy_from limit fs sdk lp rp w = Some (Inr u, w')"
  shows "w' = w\<lparr>log := log w @
            concat (map (entry_events (adapter w) lp rp) (entries (Directory cs)))\<rparr>"
proof -
  have "copy_from limit fs sdk lp rp w =
      Some (perform_all fs sdk (schedule lp rp (Directory cs)) w)"
    using assms(1,2) by (intro copy_from_schedule) simp_all
  with assms(3) have "perform_all fs sdk (schedule lp rp (Directory cs)) w = (Inr u, w')"
    by simp
  from perform_all_Inr [OF this] show ?thesis
    by (simp only: schedule_entries [of "Directory cs"] node.distinct not_False_eq_True)
qed

lemma copy_from_entries_prefix:
  assumes "represents fs lp (Directory cs)" and "depth (Directory cs) \<le> limit"
    and "copy_from limit fs sdk lp rp w = Some (r, w')"
  shows "\<exists>es. log w' = log w @ es \<and>
           prefix es (concat (map (entry_events (adapter w) lp rp) (entries (Directory cs))))"
proof -
  have "copy_from limit fs sdk lp rp w =
      Some (perform_all fs sdk (schedule lp rp (Directory cs)) w)"
    using assms(1,2) by (intro copy_from_schedule) simp_all
  with assms(3) have "perform_all fs sdk (schedule lp rp (Directory cs)) w = (r, w')"
    by simp
  from perform_all_prefix [OF this] show ?thesis
    by (simp only: schedule_entries [of "Directory cs"] node.distinct not_False_eq_True)
qed

subsection \<open>Calls by kind, and the order of the entries\<close>





subsection \<open>Paths built by joining names\<close>

lemma slashed_Nil: "slashed [] = []"
  by (simp add: slashed_def)

lemma slashed_Cons: "slashed (n # ns) = CHR ''/'' # n @ slashed ns"
  by (simp add: slashed_def)

lemma slashed_starts:
  "slashed ns = [] \<or> hd (slashed ns) = CHR ''/''"
  by (cases ns) (simp_all add: slashed_Nil slashed_Cons)

lemma takeWhile_name:
  "CHR ''/'' \<notin> set x \<Longrightarrow> u = [] \<or> hd u = CHR ''/'' \<Longrightarrow>
     takeWhile (\<lambda>c. c \<noteq> CHR ''/'') (x @ u) = x"
  by (induction x) (auto, cases u, auto)

lemma split_at_separator:
  assumes "CHR ''/'' \<notin> set x" "CHR ''/'' \<notin> set y"
    and "u = [] \<or> hd u = CHR ''/''" "v = [] \<or> hd v = CHR ''/''"
    and "x @ u = y @ v"
  shows "x = y \<and> u = v"
proof -
  have "takeWhile (\<lambda>c. c \<noteq> CHR ''/'') (x @ u) = x"
    using assms(1,3) by (rule takeWhile_name)
  moreover have "takeWhile (\<lambda>c. c \<noteq> CHR ''/'') (y @ v) = y"
    using assms(2,4) by (rule takeWhile_name)
  ultimately have "x = y" using assms(5) by simp
  with assms(5) show ?thesis by simp
qed

lemma slashed_inj:
  "list_all valid_name xs \<Longrightarrow> list_all valid_name ys \<Longrightarrow> slashed xs = slashed ys \<Longrightarrow> xs = ys"
proof (induction xs arbitrary: ys)
  case Nil
  then show ?case by (cases ys) (simp_all add: slashed_Nil slashed_Cons)
next
  case (Cons x xs)
  show ?case
  proof (cases ys)
    case Nil
    with Cons.prems show ?thesis by (simp add: slashed_Nil slashed_Cons)
  next
    case (Cons y ys')
    with Cons.prems have eq: "x @ slashed xs = y @ slashed ys'"
      by (simp add: slashed_Cons)
    from Cons.prems Cons have v: "CHR ''/'' \<notin> set x" "CHR ''/'' \<notin> set y"
      by (simp_all add: valid_name_def)
    from split_at_separator [OF v slashed_starts slashed_starts eq]
    have "x = y" "slashed xs = slashed ys'" by simp_all
    with Cons.IH [of ys'] Cons.prems Cons show ?thesis by simp
  qed
qed

lemma join_valid:
  "valid_name n \<Longrightarrow>
     os_path_join a n = a @ (if a = [] \<or> last a = CHR ''/'' then [] else ''/'') @ n"
  by (cases n) (auto simp: os_path_join_def valid_name_def)

lemma join_valid_ends:
  "valid_name n \<Longrightarrow> os_path_join a n \<noteq> [] \<and> last (os_path_join a n) \<noteq> CHR ''/''"
proof -
  assume v: "valid_name n"
  then have ne: "n \<noteq> []" by (simp add: valid_name_def)
  then have "last n \<in> set n" by (rule last_in_set)
  with v have "last n \<noteq> CHR ''/''" unfolding valid_name_def by metis
  with v ne show ?thesis by (simp add: join_valid)
qed

lemma descend_literal:
  "a \<noteq> [] \<Longrightarrow> last a \<noteq> CHR ''/'' \<Longrightarrow> list_all valid_name ns \<Longrightarrow> descend a ns = a @ slashed ns"
proof (induction ns arbitrary: a)
  case Nil
  then show ?case by (simp add: descend_Nil slashed_Nil)
next
  case (Cons n ns)
  then have v: "valid_name n" and vs: "list_all valid_name ns" by simp_all
  from join_valid_ends [OF v, of a] Cons.IH [of "os_path_join a n"] vs
  have "descend (os_path_join a n) ns = os_path_join a n @ slashed ns" by simp
  with Cons.prems v show ?case by (simp add: descend_Cons slashed_Cons join_valid)
qed

lemma descend_valid:
  assumes "valid_name n" "list_all valid_name ns"
  shows "descend a (n # ns) = os_path_join a n @ slashed ns"
  using join_valid_ends [OF assms(1), of a] assms(2)
  by (simp add: descend_Cons descend_literal)

lemma descend_inj:
  assumes "list_all valid_name xs" "list_all valid_name ys" "descend a xs = descend a ys"
  shows "xs = ys"
proof (cases xs)
  case Nil
  show ?thesis
  proof (cases ys)
    case Nil
    with \<open>xs = []\<close> show ?thesis by simp
  next
    case (Cons y ys')
    with assms have "valid_name y" "list_all valid_name ys'" by simp_all
    from descend_valid [OF this, of a] assms(3) Nil Cons \<open>valid_name y\<close>
    have "length a = length (os_path_join a y @ slashed ys')"
      by (simp add: descend_Nil)
    with \<open>valid_name y\<close> show ?thesis
      by (simp add: join_valid valid_name_def split: if_splits)
  qed
next
  case (Cons x xs')
  with assms have vx: "valid_name x" "list_all valid_name xs'" by simp_all
  show ?thesis
  proof (cases ys)
    case Nil
    from descend_valid [OF vx, of a] assms(3) Nil Cons
    have "length a = length (os_path_join a x @ slashed xs')"
      by (simp add: descend_Nil)
    with vx(1) show ?thesis
      by (simp add: join_valid valid_name_def split: if_splits)
  next
    case (Cons y ys')
    with assms have vy: "valid_name y" "list_all valid_name ys'" by simp_all
    from descend_valid [OF vx, of a] descend_valid [OF vy, of a] assms(3) Cons \<open>xs = x # xs'\<close>
    have "os_path_join a x @ slashed xs' = os_path_join a y @ slashed ys'" by simp
    with vx(1) vy(1) have eq: "x @ slashed xs' = y @ slashed ys'"
      by (simp add: join_valid)
    from vx(1) vy(1) have "CHR ''/'' \<notin> set x" "CHR ''/'' \<notin> set y"
      by (simp_all add: valid_name_def)
    from split_at_separator [OF this slashed_starts slashed_starts eq]
    have "x = y" "slashed xs' = slashed ys'" by simp_all
    with slashed_inj [OF vx(2) vy(2)] Cons \<open>xs = x # xs'\<close> show ?thesis by simp
  qed
qed

lemma entries_children_head:
  "e \<in> set (entries_children cs) \<Longrightarrow> fst e \<noteq> [] \<and> hd (fst e) \<in> fst ` set cs"
  by (induction cs) auto

lemma entries_valid:
  "wellformed t \<Longrightarrow> e \<in> set (entries t) \<Longrightarrow> list_all valid_name (fst e)"
  and entries_children_valid:
  "wellformed_children cs \<Longrightarrow> e \<in> set (entries_children cs) \<Longrightarrow> list_all valid_name (fst e)"
proof (induction t and cs arbitrary: e and e rule: entries_entries_children.induct)
  case (1 cs)
  from "1.prems"(1) have wcs: "wellformed_children cs" by simp
  from "1.prems"(2) consider "e = ([], IsDir)" | "e \<in> set (entries_children cs)"
    by auto
  then show ?case
  proof cases
    case 1
    then show ?thesis by simp
  next
    case 2
    from "1.IH" [OF wcs 2] show ?thesis .
  qed
next
  case 2
  then show ?case by simp
next
  case 3
  then show ?case by simp
next
  case 4
  then show ?case by simp
next
  case (5 name c cs)
  from "5.prems"(1) have vn: "valid_name name" and wc: "wellformed c"
    and wcs: "wellformed_children cs"
    by (simp_all add: valid_name_def)
  from "5.prems"(2) consider
    (here) q where "q \<in> set (entries c)" "fst e = name # fst q"
    | (later) "e \<in> set (entries_children cs)"
    by auto
  then show ?case
  proof cases
    case here
    from "5.IH"(1) [OF wc here(1)] vn here(2) show ?thesis by simp
  next
    case later
    from "5.IH"(2) [OF wcs later] show ?thesis .
  qed
qed

lemma entries_distinct:
  "wellformed t \<Longrightarrow> distinct (map fst (entries t))"
  and entries_children_distinct:
  "wellformed_children cs \<Longrightarrow> distinct (map fst cs) \<Longrightarrow>
     distinct (map fst (entries_children cs))"
proof (induction t and cs rule: entries_entries_children.induct)
  case (1 cs)
  then have "distinct (map fst (entries_children cs))" by simp
  moreover have "[] \<notin> set (map fst (entries_children cs))"
    by (auto dest: entries_children_nonempty)
  ultimately show ?case by simp
next
  case 2
  then show ?case by simp
next
  case 3
  then show ?case by simp
next
  case 4
  then show ?case by simp
next
  case (5 name c cs)
  let ?f = "\<lambda>e. (name # fst e, snd e)"
  from "5.prems" "5.IH" have dc: "distinct (map fst (entries c))"
    and dcs: "distinct (map fst (entries_children cs))" and fresh: "name \<notin> fst ` set cs"
    by auto
  have m: "map fst (map ?f (entries c)) = map ((#) name) (map fst (entries c))"
    by (simp add: comp_def)
  from dc have 1: "distinct (map fst (map ?f (entries c)))"
    by (auto simp: distinct_map inj_on_def comp_def)
  have 2: "set (map fst (map ?f (entries c))) \<inter> set (map fst (entries_children cs)) = {}"
  proof -
    have "\<And>q. q \<in> set (map fst (entries_children cs)) \<Longrightarrow> q \<noteq> [] \<and> hd q \<noteq> name"
      using fresh by (auto dest!: entries_children_head)
    moreover have "\<And>q. q \<in> set (map fst (map ?f (entries c))) \<Longrightarrow> q \<noteq> [] \<and> hd q = name"
      by auto
    ultimately show ?thesis by blast
  qed
  from 1 2 dcs show ?case by simp
qed





lemma join_assoc:
  assumes "valid_name n"
  shows "os_path_join a (os_path_join b n) = os_path_join (os_path_join a b) n"
proof -
  from assms obtain c cs where n: "n = c # cs" "c \<noteq> CHR ''/''"
    by (cases n) (auto simp: valid_name_def)
  show ?thesis
  proof (cases "b = []")
    case True
    with n show ?thesis by (simp add: os_path_join_def)
  next
    case False
    then obtain d ds where b: "b = d # ds" by (cases b) auto
    with n show ?thesis by (simp add: os_path_join_def)
  qed
qed

lemma descend_assoc:
  "list_all valid_name q \<Longrightarrow> os_path_join a (descend b q) = descend (os_path_join a b) q"
proof (induction q arbitrary: b)
  case Nil
  then show ?case by (simp add: descend_Nil)
next
  case (Cons n q)
  then show ?case by (simp add: descend_Cons join_assoc)
qed

lemma slashed_snoc: "slashed (q @ [n]) = slashed q @ CHR ''/'' # n"
  by (simp add: slashed_def)

lemma represents_entries:
  "represents fs lp t \<Longrightarrow> (p, k) \<in> set (entries t) \<Longrightarrow>
     (k = IsDir \<longrightarrow> isdir fs (descend lp p)) \<and>
     (k = IsFile \<longrightarrow> \<not> isdir fs (descend lp p) \<and> isfile fs (descend lp p)) \<and>
     (k = IsOther \<longrightarrow> \<not> isdir fs (descend lp p) \<and> \<not> isfile fs (descend lp p))"
  and represents_entries_children:
  "represents_children fs lp cs \<Longrightarrow> (p, k) \<in> set (entries_children cs) \<Longrightarrow>
     (k = IsDir \<longrightarrow> isdir fs (descend lp p)) \<and>
     (k = IsFile \<longrightarrow> \<not> isdir fs (descend lp p) \<and> isfile fs (descend lp p)) \<and>
     (k = IsOther \<longrightarrow> \<not> isdir fs (descend lp p) \<and> \<not> isfile fs (descend lp p))"
proof (induction t and cs arbitrary: lp p and lp p rule: entries_entries_children.induct)
  case (1 cs)
  from "1.prems"(2) consider "p = []" "k = IsDir" | "(p, k) \<in> set (entries_children cs)"
    by auto
  then show ?case
  proof cases
    case 1
    with "1.prems"(1) show ?thesis by (simp add: descend_Nil)
  next
    case 2
    from "1.prems"(1) have "represents_children fs lp cs" by simp
    from "1.IH" [OF this 2] show ?thesis .
  qed
next
  case 2
  then show ?case by (simp add: descend_Nil)
next
  case 3
  then show ?case by (simp add: descend_Nil)
next
  case 4
  then show ?case by simp
next
  case (5 name c cs)
  from "5.prems"(1) have rc: "represents fs (os_path_join lp name) c"
    and rcs: "represents_children fs lp cs" by simp_all
  from "5.prems"(2) consider
    (here) q where "(q, k) \<in> set (entries c)" "p = name # q"
    | (later) "(p, k) \<in> set (entries_children cs)"
    by auto
  then show ?case
  proof cases
    case here
    from "5.IH"(1) [OF rc here(1)] here(2) show ?thesis by (simp add: descend_Cons)
  next
    case later
    from "5.IH"(2) [OF rcs later] show ?thesis .
  qed
qed

subsection \<open>Runs that return normally, runs that a remote call ends\<close>

lemma accepted_all: "\<forall>h e. sdk h e \<Longrightarrow> accepted sdk h es"
  by (induction es arbitrary: h) simp_all

lemma perform_accepted:
  assumes "accepted sdk (log w) (trace (adapter w) a)"
    and "\<forall>f. Open_rb f \<in> set (trace (adapter w) a) \<longrightarrow> readable fs f"
  shows "perform fs sdk a w = (Inr (), w\<lparr>log := log w @ trace (adapter w) a\<rparr>)"
proof (cases a)
  case (Mkdir path)
  with assms show ?thesis by (simp add: make_directory_def Let_def)
next
  case (Upload file_path dest_path filename)
  with assms show ?thesis by (simp add: upload_file_def upload_fileobj_def Let_def)
qed

lemma perform_all_accepted:
  "accepted sdk (log w) (concat (map (trace (adapter w)) as)) \<Longrightarrow>
   \<forall>f. Open_rb f \<in> set (concat (map (trace (adapter w)) as)) \<longrightarrow> readable fs f \<Longrightarrow>
   perform_all fs sdk as w = (Inr (), w\<lparr>log := log w @ concat (map (trace (adapter w)) as)\<rparr>)"
proof (induction as arbitrary: w)
  case Nil
  then show ?case by simp
next
  case (Cons a as)
  let ?t = "trace (adapter w) a"
  let ?w1 = "w\<lparr>log := log w @ ?t\<rparr>"
  from Cons.prems(1) have a1: "accepted sdk (log w) ?t"
    and a2: "accepted sdk (log w @ ?t) (concat (map (trace (adapter w)) as))"
    by (simp_all add: accepted_append)
  from Cons.prems(2) have r1: "\<forall>f. Open_rb f \<in> set ?t \<longrightarrow> readable fs f"
    and r2: "\<forall>f. Open_rb f \<in> set (concat (map (trace (adapter w)) as)) \<longrightarrow> readable fs f"
    by auto
  from perform_accepted [OF a1 r1] have p: "perform fs sdk a w = (Inr (), ?w1)" .
  have "perform_all fs sdk as ?w1 =
      (Inr (), ?w1\<lparr>log := log ?w1 @ concat (map (trace (adapter ?w1)) as)\<rparr>)"
    using a2 r2 by (intro Cons.IH) simp_all
  with p show ?case by simp
qed

lemma perform_rejected:
  assumes "trace (adapter w) a = pre @ c # us" and "is_remote c"
    and "\<not> sdk (log w @ pre) c"
    and "\<forall>f. Open_rb f \<in> set pre \<longrightarrow> readable fs f"
  shows "perform fs sdk a w = (Inl (RemoteError c), w\<lparr>log := log w @ pre @ c # us\<rparr>)
     \<and> filter is_remote us = []"
proof (cases a)
  case (Mkdir path)
  with assms(1) have "pre = [] \<and> us = []
      \<and> c = Files_manage ''mkdir'' path (system_id (adapter w)) (rootpath (adapter w))"
    by (auto simp: Cons_eq_append_conv)
  with Mkdir assms(3) show ?thesis by (simp add: make_directory_def Let_def)
next
  case (Upload file_path dest_path filename)
  with assms(1,2) have "pre = [Open_rb file_path] \<and> us = [Close_file file_path]
      \<and> c = Files_importData (system_id (adapter w))
              (os_path_join (rootpath (adapter w)) dest_path) file_path filename"
    by (auto simp: Cons_eq_append_conv)
  with Upload assms(3,4) show ?thesis
    by (simp add: upload_file_def upload_fileobj_def Let_def)
qed

lemma perform_all_rejected:
  "concat (map (trace (adapter w)) as) = pre @ c # post \<Longrightarrow> is_remote c \<Longrightarrow>
   accepted sdk (log w) pre \<Longrightarrow> \<not> sdk (log w @ pre) c \<Longrightarrow>
   \<forall>f. Open_rb f \<in> set pre \<longrightarrow> readable fs f \<Longrightarrow>
   \<exists>w' post'. perform_all fs sdk as w = (Inl (RemoteError c), w')
     \<and> log w' = log w @ pre @ c # post' \<and> filter is_remote post' = [] \<and> prefix post' post"
proof (induction as arbitrary: w pre)
  case Nil
  then show ?case by simp
next
  case (Cons a as)
  let ?t = "trace (adapter w) a"
  let ?rest = "concat (map (trace (adapter w)) as)"
  from Cons.prems(1) have "?t @ ?rest = pre @ c # post" by simp
  then obtain us where
    "(?t = pre @ us \<and> us @ ?rest = c # post) \<or> (?t @ us = pre \<and> ?rest = us @ c # post)"
    by (auto simp: append_eq_append_conv2)
  then consider (inside) vs where "?t = pre @ c # vs" "post = vs @ ?rest"
    | (after) pre' where "pre = ?t @ pre'" "?rest = pre' @ c # post"
    by (cases us) auto
  then show ?case
  proof cases
    case inside
    from perform_rejected [where sdk = sdk and fs = fs, OF inside(1) Cons.prems(2,4,5)]
    have "perform fs sdk a w = (Inl (RemoteError c), w\<lparr>log := log w @ pre @ c # vs\<rparr>)"
      and "filter is_remote vs = []" by simp_all
    with inside(2) show ?thesis by simp
  next
    case after
    let ?w1 = "w\<lparr>log := log w @ ?t\<rparr>"
    from Cons.prems(3) after(1) have a1: "accepted sdk (log w) ?t"
      and a2: "accepted sdk (log w @ ?t) pre'"
      by (simp_all add: accepted_append)
    from Cons.prems(5) after(1) have r1: "\<forall>f. Open_rb f \<in> set ?t \<longrightarrow> readable fs f"
      and r2: "\<forall>f. Open_rb f \<in> set pre' \<longrightarrow> readable fs f"
      by auto
    from perform_accepted [OF a1 r1] have p: "perform fs sdk a w = (Inr (), ?w1)" .
    have "\<exists>w' post'. perform_all fs sdk as ?w1 = (Inl (RemoteError c), w')
        \<and> log w' = log ?w1 @ pre' @ c # post' \<and> filter is_remote post' = [] \<and> prefix post' post"
      using after(2) Cons.prems(2,4) a2 r2 after(1) by (intro Cons.IH) simp_all
    with p after(1) show ?thesis by simp
  qed
qed

lemma open_events:
  assumes "Open_rb f \<in> set (concat (map (entry_events a lp rp) (entries t)))"
  shows "\<exists>p \<in> set (regular_files t). f = descend lp p"
proof -
  from assms obtain p k where m: "(p, k) \<in> set (entries t)"
    and e: "Open_rb f \<in> set (entry_events a lp rp (p, k))" by auto
  from e have "k = IsFile \<and> f = descend lp p" by (cases k) simp_all
  with m show ?thesis by (force simp: regular_files_def)
qed

text \<open>The run on a tree: it returns, and its events are the events of the entries, as
  far as it gets.\<close>

lemma copy_from_run:
  assumes rep: "represents fs lp (Directory cs)" and dep: "depth (Directory cs) \<le> limit"
  shows "\<exists>r w' es. copy_from limit fs sdk lp rp w = Some (r, w') \<and> adapter w' = adapter w
     \<and> log w' = log w @ es
     \<and> prefix es (concat (map (entry_events (adapter w) lp rp) (entries (Directory cs))))
     \<and> (r = Inr () \<longrightarrow>
          es = concat (map (entry_events (adapter w) lp rp) (entries (Directory cs))))
     \<and> outcome sdk (log w) es r"
proof -
  let ?full = "concat (map (entry_events (adapter w) lp rp) (entries (Directory cs)))"
  have "copy_from limit fs sdk lp rp w =
      Some (perform_all fs sdk (schedule lp rp (Directory cs)) w)"
    using rep dep by (intro copy_from_schedule) simp_all
  then obtain r w' where run: "copy_from limit fs sdk lp rp w = Some (r, w')"
    by (cases "perform_all fs sdk (schedule lp rp (Directory cs)) w") auto
  from copy_from_entries_prefix [OF rep dep run] obtain es where
    lg: "log w' = log w @ es" and pre: "prefix es ?full" by blast
  from copy_from_extends [OF run] lg have ad: "adapter w' = adapter w"
    and oc: "outcome sdk (log w) es r"
    by (auto simp: extends_def)
  have "es = ?full" if "r = Inr ()"
  proof -
    from run that have "copy_from limit fs sdk lp rp w = Some (Inr (), w')" by simp
    from copy_from_entries [OF rep dep this] lg show ?thesis by simp
  qed
  with run lg pre ad oc show ?thesis by blast
qed

lemma copy_from_succeeds:
  assumes rep: "represents fs lp (Directory cs)" and dep: "depth (Directory cs) \<le> limit"
    and acc: "accepted sdk (log w)
                (concat (map (entry_events (adapter w) lp rp) (entries (Directory cs))))"
    and rd: "\<forall>p \<in> set (regular_files (Directory cs)). readable fs (descend lp p)"
  shows "copy_from limit fs sdk lp rp w =
     Some (Inr (), w\<lparr>log := log w @
       concat (map (entry_events (adapter w) lp rp) (entries (Directory cs)))\<rparr>)"
proof -
  let ?as = "schedule lp rp (Directory cs)"
  have tr: "concat (map (trace (adapter w)) ?as) =
      concat (map (entry_events (adapter w) lp rp) (entries (Directory cs)))"
    by (rule schedule_entries) simp_all
  have c: "copy_from limit fs sdk lp rp w = Some (perform_all fs sdk ?as w)"
    using rep dep by (intro copy_from_schedule) simp_all
  have a: "accepted sdk (log w) (concat (map (trace (adapter w)) ?as))"
    using acc by (simp only: tr)
  have r: "\<forall>f. Open_rb f \<in> set (concat (map (trace (adapter w)) ?as)) \<longrightarrow> readable fs f"
  proof (intro allI impI)
    fix f assume "Open_rb f \<in> set (concat (map (trace (adapter w)) ?as))"
    then have "Open_rb f \<in>
        set (concat (map (entry_events (adapter w) lp rp) (entries (Directory cs))))"
      by (simp only: tr)
    from open_events [OF this] obtain p where
      "p \<in> set (regular_files (Directory cs))" "f = descend lp p" by blast
    with rd show "readable fs f" by blast
  qed
  from perform_all_accepted [OF a r] c show ?thesis by (simp only: tr)
qed

lemma copy_from_rejected:
  assumes rep: "represents fs lp (Directory cs)" and dep: "depth (Directory cs) \<le> limit"
    and full: "concat (map (entry_events (adapter w) lp rp) (entries (Directory cs))) =
                 pre @ c # post"
    and rem: "is_remote c" and acc: "accepted sdk (log w) pre"
    and rej: "\<not> sdk (log w @ pre) c"
    and rd: "\<forall>f. Open_rb f \<in> set pre \<longrightarrow> readable fs f"
  shows "\<exists>w' post'. copy_from limit fs sdk lp rp w = Some (Inl (RemoteError c), w')
     \<and> log w' = log w @ pre @ c # post' \<and> filter is_remote post' = [] \<and> prefix post' post"
proof -
  let ?as = "schedule lp rp (Directory cs)"
  have tr: "concat (map (trace (adapter w)) ?as) =
      concat (map (entry_events (adapter w) lp rp) (entries (Directory cs)))"
    by (rule schedule_entries) simp_all
  have c: "copy_from limit fs sdk lp rp w = Some (perform_all fs sdk ?as w)"
    using rep dep by (intro copy_from_schedule) simp_all
  from full have "concat (map (trace (adapter w)) ?as) = pre @ c # post"
    by (simp only: tr)
  from perform_all_rejected [OF this rem acc rej rd] c show ?thesis by simp
qed

text \<open>Whatever the file system: a call the remote side rejected ends the run.\<close>

lemma rejected_call_ends_run:
  assumes run: "copy_from limit fs sdk lp rp w = Some (r, w')"
    and lg: "log w' = log w @ pre @ c # post"
    and rem: "is_remote c"
    and rej: "\<not> sdk (log w @ pre) c"
  shows "r = Inl (RemoteError c) \<and> filter is_remote post = [] \<and> accepted sdk (log w) pre"
proof -
  from copy_from_extends [OF run] lg have oc: "outcome sdk (log w) (pre @ c # post) r"
    by (auto simp: extends_def)
  have no: "\<not> accepted sdk (log w) (pre @ c # post)"
    using rem rej by (simp add: accepted_append)
  show ?thesis
  proof (cases r)
    case (Inr u)
    with oc no show ?thesis by (simp add: outcome_def)
  next
    case (Inl e)
    show ?thesis
    proof (cases e)
      case (KeyError k)
      with Inl oc no show ?thesis by (simp add: outcome_def)
    next
      case (OSError p)
      with Inl oc no show ?thesis by (simp add: outcome_def)
    next
      case (RemoteError c')
      with Inl oc obtain pre' post' where
        e: "pre @ c # post = pre' @ c' # post'" and a: "accepted sdk (log w) pre'"
        and q: "filter is_remote post' = []"
        by (auto simp: outcome_def)
      from first_rejected_unique [OF e a q rem rej] a q Inl RemoteError show ?thesis
        by simp
    qed
  qed
qed

subsection \<open>The concrete tree, evaluated\<close>

lemma example_children_represents:
  "represents example_fs ''proj''
     (Directory [(''a.txt'', RegularFile), (''sub'', Directory [(''b.txt'', RegularFile)]),
                 (''pipe'', Other)])"
  using example_represents by (simp only: example_tree_def)

lemma example_children_depth:
  "depth (Directory [(''a.txt'', RegularFile), (''sub'', Directory [(''b.txt'', RegularFile)]),
                 (''pipe'', Other)]) \<le> 2"
  by simp

lemma example_children_wellformed:
  "wellformed (Directory [(''a.txt'', RegularFile), (''sub'', Directory [(''b.txt'', RegularFile)]),
                 (''pipe'', Other)])"
  by simp

lemma example_run_log:
  "copy_from 2 example_fs reliable ''proj'' ''proj'' example_world =
     Some (Inr (), example_world\<lparr>log := example_log\<rparr>)"
  unfolding example_log_def by (rule example_run)

lemma example_run_quota:
  "copy_from 2 example_fs (quota 2) ''proj'' ''proj'' example_world =
     Some (Inl (RemoteError (Files_manage ''mkdir'' ''proj/sub'' ''data-sd2e-community''
                  ''/sample/biofab'')),
           example_world\<lparr>log :=
             [Files_manage ''mkdir'' ''proj'' ''data-sd2e-community'' ''/sample/biofab'',
              Open_rb ''proj/a.txt'',
              Files_importData ''data-sd2e-community'' ''/sample/biofab/proj'' ''proj/a.txt'' ''a.txt'',
              Close_file ''proj/a.txt'',
              Files_manage ''mkdir'' ''proj/sub'' ''data-sd2e-community'' ''/sample/biofab'']\<rparr>)"
  by (simp add: numeral_2_eq_2 make_directory_def upload_file_def upload_fileobj_def
      example_fs_def example_world_def example_adapter_def quota_def os_path_join_def Let_def)

lemma example_run_unreachable:
  "copy_from 2 example_fs unreachable ''proj'' ''proj'' example_world =
     Some (Inl (RemoteError (Files_manage ''mkdir'' ''proj'' ''data-sd2e-community''
                  ''/sample/biofab'')),
           example_world\<lparr>log :=
             [Files_manage ''mkdir'' ''proj'' ''data-sd2e-community'' ''/sample/biofab'']\<rparr>)"
  by (simp add: numeral_2_eq_2 make_directory_def example_world_def example_adapter_def
      unreachable_def Let_def)

lemma example_events:
  "concat (map (entry_events (adapter example_world) ''proj'' ''proj'')
     (entries (Directory [(''a.txt'', RegularFile), (''sub'', Directory [(''b.txt'', RegularFile)]),
                 (''pipe'', Other)]))) = example_log"
  by (simp add: example_log_def example_world_def example_adapter_def descend_def os_path_join_def)

lemma example_readable:
  "\<forall>p \<in> set (regular_files (Directory [(''a.txt'', RegularFile),
        (''sub'', Directory [(''b.txt'', RegularFile)]), (''pipe'', Other)])).
     readable example_fs (descend ''proj'' p)"
  by (simp add: regular_files_def descend_def os_path_join_def example_fs_def)

lemma reliable_accepts: "\<forall>h e. reliable h e"
  by (simp add: reliable_def)

subsection \<open>The calls of a traversal\<close>

lemma in_entry_events:
  "e \<in> set (concat (map (entry_events a lp rp) es)) \<Longrightarrow>
     \<exists>q k. (q, k) \<in> set es \<and> e \<in> set (entry_events a lp rp (q, k))"
  by auto





text \<open>
  C3. What \<^verbatim>\<open>copy_from\<close> skips is decided by \<^verbatim>\<open>os.path.isdir\<close> and
  \<^verbatim>\<open>os.path.isfile\<close>, and both look through symbolic links. So the property holds of
  the entries that neither of the two accepts (a FIFO, a socket, a device, a symbolic
  link that leads nowhere), and not of every symbolic link. For such an entry of the
  tree: \<^verbatim>\<open>copy_from\<close> returns, no create-directory call has the entry's remote path, no
  file is opened from and no upload call is made for its local path, and the entry
  raises nothing: the run returns normally when the remote side accepts every call and
  every regular file can be opened.
\<close>

theorem skipped_entries:
  assumes rep: "represents fs lp (Directory cs)" and dep: "depth (Directory cs) \<le> limit"
    and wf: "wellformed (Directory cs)"
    and p: "p \<in> set (other_entries (Directory cs))"
  shows "\<not> isdir fs (descend lp p) \<and> \<not> isfile fs (descend lp p)
     \<and> (\<exists>r w' es. copy_from limit fs sdk lp rp w = Some (r, w') \<and> log w' = log w @ es
          \<and> (\<forall>e \<in> set es. \<not> about (descend lp p) (descend rp p) e)
          \<and> ((\<forall>h e. sdk h e)
               \<and> (\<forall>q \<in> set (regular_files (Directory cs)). readable fs (descend lp q))
               \<longrightarrow> r = Inr ()))"
proof -
  let ?t = "Directory cs"
  let ?full = "concat (map (entry_events (adapter w) lp rp) (entries ?t))"
  from p have m: "(p, IsOther) \<in> set (entries ?t)" by (auto simp: other_entries_def)
  from represents_entries(1) [OF rep m]
  have kind: "\<not> isdir fs (descend lp p) \<and> \<not> isfile fs (descend lp p)" by simp
  from entries_valid(1) [OF wf m] have vp: "list_all valid_name p" by simp
  from copy_from_run [OF rep dep] obtain r w' es where
    run: "copy_from limit fs sdk lp rp w = Some (r, w')" and lg: "log w' = log w @ es"
    and pre: "prefix es ?full"
    by blast
  have ok: "(\<forall>h e. sdk h e) \<and> (\<forall>q \<in> set (regular_files ?t). readable fs (descend lp q))
      \<longrightarrow> r = Inr ()"
  proof
    assume a: "(\<forall>h e. sdk h e) \<and> (\<forall>q \<in> set (regular_files ?t). readable fs (descend lp q))"
    then have "accepted sdk (log w) ?full" by (simp add: accepted_all)
    from copy_from_succeeds [OF rep dep this] a run show "r = Inr ()" by simp
  qed
  have none: "\<forall>e \<in> set es. \<not> about (descend lp p) (descend rp p) e"
  proof (intro ballI notI)
    fix e assume mem: "e \<in> set es" and ab: "about (descend lp p) (descend rp p) e"
    from pre have "set es \<subseteq> set ?full" by (rule set_mono_prefix)
    with mem have "e \<in> set ?full" by (rule rev_subsetD)
    from in_entry_events [OF this] obtain q k where qk: "(q, k) \<in> set (entries ?t)"
      and e: "e \<in> set (entry_events (adapter w) lp rp (q, k))" by blast
    from entries_valid(1) [OF wf qk] have vq: "list_all valid_name q" by simp
    have "q = p"
    proof (cases k)
      case IsDir
      with e ab have "descend rp q = descend rp p" by auto
      from descend_inj [OF vq vp this] show ?thesis .
    next
      case IsFile
      with e ab have "descend lp q = descend lp p" by auto
      from descend_inj [OF vq vp this] show ?thesis .
    next
      case IsOther
      with e show ?thesis by simp
    qed
    with qk have "(p, k) \<in> set (entries ?t)" by blast
    from eq_key_imp_eq_value [OF entries_distinct(1) [OF wf] this m]
    have k: "k = IsOther" .
    with e show False by simp
  qed
  from kind run lg none ok show ?thesis by blast
qed

theorem skipped_entries_witness:
  "represents example_fs ''proj'' example_tree \<and> depth example_tree \<le> 2
   \<and> wellformed example_tree \<and> other_entries example_tree = [[''pipe'']]
   \<and> (\<forall>h e. reliable h e)
   \<and> readable example_fs ''proj/a.txt'' \<and> readable example_fs ''proj/sub/b.txt''
   \<and> \<not> isdir example_fs ''proj/pipe'' \<and> \<not> isfile example_fs ''proj/pipe''
   \<and> copy_from 2 example_fs reliable ''proj'' ''proj'' example_world =
       Some (Inr (), example_world\<lparr>log := example_log\<rparr>)
   \<and> filter (about ''proj/pipe'' ''proj/pipe'') example_log = []"
proof -
  let ?cs = "[(''a.txt'', RegularFile), (''sub'', Directory [(''b.txt'', RegularFile)]),
              (''pipe'', Other)]"
  have p: "[''pipe''] \<in> set (other_entries (Directory ?cs))"
    by (simp add: other_entries_def)
  from skipped_entries [OF example_children_represents example_children_depth
      example_children_wellformed p,
      where sdk = reliable and rp = "''proj''" and w = example_world]
  obtain r w' es where
    kind: "\<not> isdir example_fs (descend ''proj'' [''pipe''])
        \<and> \<not> isfile example_fs (descend ''proj'' [''pipe''])"
    and run: "copy_from 2 example_fs reliable ''proj'' ''proj'' example_world = Some (r, w')"
    and lg: "log w' = log example_world @ es"
    and none: "\<forall>e \<in> set es.
        \<not> about (descend ''proj'' [''pipe'']) (descend ''proj'' [''pipe'']) e"
    by blast
  from run example_run_log have "w' = example_world\<lparr>log := example_log\<rparr>" by simp
  with lg have es: "es = example_log" by (simp add: example_world_def)
  from none es have "filter (about (descend ''proj'' [''pipe'']) (descend ''proj'' [''pipe'']))
      example_log = []"
    by (simp add: filter_empty_conv)
  then have quiet: "filter (about ''proj/pipe'' ''proj/pipe'') example_log = []"
    by (simp add: descend_def os_path_join_def)
  from kind have "\<not> isdir example_fs ''proj/pipe'' \<and> \<not> isfile example_fs ''proj/pipe''"
    by (simp add: descend_def os_path_join_def)
  with quiet example_run_log example_represents example_depth reliable_accepts
  show ?thesis
    by (simp add: example_tree_def other_entries_def example_fs_def)
qed

text \<open>
  A symbolic link to a regular file is an entry \<^verbatim>\<open>os.path.isfile\<close> accepts, so it is
  uploaded like the file it leads to: in the directory \<^verbatim>\<open>proj\<close> with the file
  \<^verbatim>\<open>a.txt\<close> and the link \<^verbatim>\<open>link\<close> to it, the run makes an upload call for
  \<^verbatim>\<open>proj/link\<close>.
\<close>

theorem symlink_to_file_is_uploaded:
  "islink linked_fs ''proj/link''
   \<and> copy_from 1 linked_fs reliable ''proj'' ''proj'' example_world =
       Some (Inr (), example_world\<lparr>log :=
         [Files_manage ''mkdir'' ''proj'' ''data-sd2e-community'' ''/sample/biofab'',
          Open_rb ''proj/a.txt'',
          Files_importData ''data-sd2e-community'' ''/sample/biofab/proj'' ''proj/a.txt'' ''a.txt'',
          Close_file ''proj/a.txt'',
          Open_rb ''proj/link'',
          Files_importData ''data-sd2e-community'' ''/sample/biofab/proj'' ''proj/link'' ''link'',
          Close_file ''proj/link'']\<rparr>)"
  by (simp add: make_directory_def upload_file_def upload_fileobj_def linked_fs_def
      example_world_def example_adapter_def reliable_def os_path_join_def Let_def)

subsection \<open>The first remote error ends the run\<close>

text \<open>
  C4. On a local directory tree \<^verbatim>\<open>copy_from\<close> returns, and a remote call that raises
  ends the run with its exception. Whatever the run did: when its events hold a remote
  call \<open>c\<close> that the remote side rejected, the result is the error of \<open>c\<close>, no
  remote call follows \<open>c\<close> (what follows is the closing of the file being uploaded),
  and every remote call before \<open>c\<close> had returned. And the run gets there: when
  \<open>c\<close> is the first call among the events of the whole traversal that the remote
  side rejects, and the files to open before it can be opened, the run makes the
  events up to \<open>c\<close> and ends with the error of \<open>c\<close>. The events of a run are
  always the first events of the whole traversal, so no call is made to undo an
  earlier one.
\<close>

theorem abort_on_first_remote_error:
  assumes rep: "represents fs lp (Directory cs)" and dep: "depth (Directory cs) \<le> limit"
  shows "\<exists>r w' es. copy_from limit fs sdk lp rp w = Some (r, w') \<and> log w' = log w @ es
     \<and> prefix es (concat (map (entry_events (adapter w) lp rp) (entries (Directory cs))))
     \<and> (\<forall>pre c post. es = pre @ c # post \<and> is_remote c \<and> \<not> sdk (log w @ pre) c \<longrightarrow>
          r = Inl (RemoteError c) \<and> filter is_remote post = [] \<and> accepted sdk (log w) pre)
     \<and> (\<forall>pre c post.
          concat (map (entry_events (adapter w) lp rp) (entries (Directory cs))) = pre @ c # post
          \<and> is_remote c \<and> accepted sdk (log w) pre \<and> \<not> sdk (log w @ pre) c
          \<and> (\<forall>f. Open_rb f \<in> set pre \<longrightarrow> readable fs f) \<longrightarrow>
          r = Inl (RemoteError c)
          \<and> (\<exists>post'. es = pre @ c # post' \<and> filter is_remote post' = [] \<and> prefix post' post))"
proof -
  let ?full = "concat (map (entry_events (adapter w) lp rp) (entries (Directory cs)))"
  from copy_from_run [OF rep dep] obtain r w' es where
    run: "copy_from limit fs sdk lp rp w = Some (r, w')" and lg: "log w' = log w @ es"
    and pre: "prefix es ?full"
    by blast
  have made: "\<forall>pre c post. es = pre @ c # post \<and> is_remote c \<and> \<not> sdk (log w @ pre) c \<longrightarrow>
      r = Inl (RemoteError c) \<and> filter is_remote post = [] \<and> accepted sdk (log w) pre"
  proof (intro allI impI)
    fix pre c post
    assume a: "es = pre @ c # post \<and> is_remote c \<and> \<not> sdk (log w @ pre) c"
    with lg have "log w' = log w @ pre @ c # post" by simp
    from rejected_call_ends_run [OF run this] a
    show "r = Inl (RemoteError c) \<and> filter is_remote post = [] \<and> accepted sdk (log w) pre"
      by simp
  qed
  have due: "\<forall>pre c post. ?full = pre @ c # post
      \<and> is_remote c \<and> accepted sdk (log w) pre \<and> \<not> sdk (log w @ pre) c
      \<and> (\<forall>f. Open_rb f \<in> set pre \<longrightarrow> readable fs f) \<longrightarrow>
      r = Inl (RemoteError c)
      \<and> (\<exists>post'. es = pre @ c # post' \<and> filter is_remote post' = [] \<and> prefix post' post)"
  proof (intro allI impI)
    fix pre c post
    assume a: "?full = pre @ c # post
      \<and> is_remote c \<and> accepted sdk (log w) pre \<and> \<not> sdk (log w @ pre) c
      \<and> (\<forall>f. Open_rb f \<in> set pre \<longrightarrow> readable fs f)"
    then have 1: "?full = pre @ c # post" and 2: "is_remote c"
      and 3: "accepted sdk (log w) pre" and 4: "\<not> sdk (log w @ pre) c"
      and 5: "\<forall>f. Open_rb f \<in> set pre \<longrightarrow> readable fs f" by simp_all
    from copy_from_rejected [OF rep dep 1 2 3 4 5] obtain w'' post' where
      "copy_from limit fs sdk lp rp w = Some (Inl (RemoteError c), w'')"
      "log w'' = log w @ pre @ c # post'" "filter is_remote post' = []" "prefix post' post"
      by blast
    with run lg show "r = Inl (RemoteError c)
        \<and> (\<exists>post'. es = pre @ c # post' \<and> filter is_remote post' = [] \<and> prefix post' post)"
      by auto
  qed
  from run lg pre made due show ?thesis by blast
qed

theorem abort_on_first_remote_error_witness:
  "represents example_fs ''proj'' example_tree \<and> depth example_tree \<le> 2
   \<and> example_log =
       [Files_manage ''mkdir'' ''proj'' ''data-sd2e-community'' ''/sample/biofab'',
        Open_rb ''proj/a.txt'',
        Files_importData ''data-sd2e-community'' ''/sample/biofab/proj'' ''proj/a.txt'' ''a.txt'',
        Close_file ''proj/a.txt'']
       @ Files_manage ''mkdir'' ''proj/sub'' ''data-sd2e-community'' ''/sample/biofab''
       # [Open_rb ''proj/sub/b.txt'',
          Files_importData ''data-sd2e-community'' ''/sample/biofab/proj/sub'' ''proj/sub/b.txt''
            ''b.txt'',
          Close_file ''proj/sub/b.txt'']
   \<and> is_remote (Files_manage ''mkdir'' ''proj/sub'' ''data-sd2e-community'' ''/sample/biofab'')
   \<and> accepted (quota 2) (log example_world)
       [Files_manage ''mkdir'' ''proj'' ''data-sd2e-community'' ''/sample/biofab'',
        Open_rb ''proj/a.txt'',
        Files_importData ''data-sd2e-community'' ''/sample/biofab/proj'' ''proj/a.txt'' ''a.txt'',
        Close_file ''proj/a.txt'']
   \<and> \<not> quota 2
         (log example_world @
            [Files_manage ''mkdir'' ''proj'' ''data-sd2e-community'' ''/sample/biofab'',
             Open_rb ''proj/a.txt'',
             Files_importData ''data-sd2e-community'' ''/sample/biofab/proj'' ''proj/a.txt''
               ''a.txt'',
             Close_file ''proj/a.txt''])
         (Files_manage ''mkdir'' ''proj/sub'' ''data-sd2e-community'' ''/sample/biofab'')
   \<and> readable example_fs ''proj/a.txt''
   \<and> copy_from 2 example_fs (quota 2) ''proj'' ''proj'' example_world =
       Some (Inl (RemoteError (Files_manage ''mkdir'' ''proj/sub'' ''data-sd2e-community''
                    ''/sample/biofab'')),
             example_world\<lparr>log :=
               [Files_manage ''mkdir'' ''proj'' ''data-sd2e-community'' ''/sample/biofab'',
                Open_rb ''proj/a.txt'',
                Files_importData ''data-sd2e-community'' ''/sample/biofab/proj'' ''proj/a.txt''
                  ''a.txt'',
                Close_file ''proj/a.txt'',
                Files_manage ''mkdir'' ''proj/sub'' ''data-sd2e-community'' ''/sample/biofab'']\<rparr>)
   \<and> copy_from 2 example_fs refuses_uploads ''proj'' ''proj'' example_world =
       Some (Inl (RemoteError (Files_importData ''data-sd2e-community'' ''/sample/biofab/proj''
                    ''proj/a.txt'' ''a.txt'')),
             example_world\<lparr>log :=
               [Files_manage ''mkdir'' ''proj'' ''data-sd2e-community'' ''/sample/biofab'',
                Open_rb ''proj/a.txt'',
                Files_importData ''data-sd2e-community'' ''/sample/biofab/proj'' ''proj/a.txt''
                  ''a.txt'',
                Close_file ''proj/a.txt'']\<rparr>)
   \<and> \<not> refuses_uploads
         (log example_world @
            [Files_manage ''mkdir'' ''proj'' ''data-sd2e-community'' ''/sample/biofab'',
             Open_rb ''proj/a.txt''])
         (Files_importData ''data-sd2e-community'' ''/sample/biofab/proj'' ''proj/a.txt'' ''a.txt'')
   \<and> filter is_remote [Close_file ''proj/a.txt''] = []
   \<and> copy_from 2 example_fs unreachable ''proj'' ''proj'' example_world =
       Some (Inl (RemoteError (Files_manage ''mkdir'' ''proj'' ''data-sd2e-community''
                    ''/sample/biofab'')),
             example_world\<lparr>log :=
               [Files_manage ''mkdir'' ''proj'' ''data-sd2e-community'' ''/sample/biofab'']\<rparr>)"
proof -
  let ?cs = "[(''a.txt'', RegularFile), (''sub'', Directory [(''b.txt'', RegularFile)]),
              (''pipe'', Other)]"
  let ?m1 = "Files_manage ''mkdir'' ''proj'' ''data-sd2e-community'' ''/sample/biofab''"
  let ?i1 = "Files_importData ''data-sd2e-community'' ''/sample/biofab/proj'' ''proj/a.txt''
               ''a.txt''"
  let ?m2 = "Files_manage ''mkdir'' ''proj/sub'' ''data-sd2e-community'' ''/sample/biofab''"
  let ?i2 = "Files_importData ''data-sd2e-community'' ''/sample/biofab/proj/sub''
               ''proj/sub/b.txt'' ''b.txt''"
  let ?pre = "[?m1, Open_rb ''proj/a.txt'', ?i1, Close_file ''proj/a.txt'']"
  let ?post = "[Open_rb ''proj/sub/b.txt'', ?i2, Close_file ''proj/sub/b.txt'']"
  have split: "example_log = ?pre @ ?m2 # ?post" by (simp add: example_log_def)
  have acc: "accepted (quota 2) (log example_world) ?pre"
    by (simp add: quota_def example_world_def)
  have rej: "\<not> quota 2 (log example_world @ ?pre) ?m2"
    by (simp add: quota_def example_world_def)
  have rd: "\<forall>f. Open_rb f \<in> set ?pre \<longrightarrow> readable example_fs f"
    by (simp add: example_fs_def)
  from abort_on_first_remote_error [OF example_children_represents example_children_depth,
      where sdk = "quota 2" and rp = "''proj''" and w = example_world]
  obtain r w' es where
    run: "copy_from 2 example_fs (quota 2) ''proj'' ''proj'' example_world = Some (r, w')"
    and due: "\<forall>pre c post.
        concat (map (entry_events (adapter example_world) ''proj'' ''proj'')
          (entries (Directory ?cs))) = pre @ c # post
        \<and> is_remote c \<and> accepted (quota 2) (log example_world) pre
        \<and> \<not> quota 2 (log example_world @ pre) c
        \<and> (\<forall>f. Open_rb f \<in> set pre \<longrightarrow> readable example_fs f) \<longrightarrow>
        r = Inl (RemoteError c)
        \<and> (\<exists>post'. es = pre @ c # post' \<and> filter is_remote post' = [] \<and> prefix post' post)"
    by blast
  from due [rule_format, of ?pre ?m2 ?post] split acc rej rd
  have nested: "r = Inl (RemoteError ?m2)"
    by (simp only: example_events is_remote.simps simp_thms)
  from abort_on_first_remote_error [OF example_children_represents example_children_depth,
      where sdk = refuses_uploads and rp = "''proj''" and w = example_world]
  obtain r2 w2 es2 where
    run2: "copy_from 2 example_fs refuses_uploads ''proj'' ''proj'' example_world = Some (r2, w2)"
    and lg2: "log w2 = log example_world @ es2"
    and made: "\<forall>pre c post. es2 = pre @ c # post \<and> is_remote c
        \<and> \<not> refuses_uploads (log example_world @ pre) c \<longrightarrow>
        r2 = Inl (RemoteError c) \<and> filter is_remote post = []
        \<and> accepted refuses_uploads (log example_world) pre"
    by blast
  from run2 example_run_refused lg2
  have es2: "es2 = [?m1, Open_rb ''proj/a.txt''] @ ?i1 # [Close_file ''proj/a.txt'']"
    by (simp add: example_world_def)
  have rej2: "\<not> refuses_uploads (log example_world @ [?m1, Open_rb ''proj/a.txt'']) ?i1"
    by (simp add: refuses_uploads_def)
  from made [rule_format, of "[?m1, Open_rb ''proj/a.txt'']" ?i1 "[Close_file ''proj/a.txt'']"]
    es2 rej2
  have upload: "r2 = Inl (RemoteError ?i1) \<and> filter is_remote [Close_file ''proj/a.txt''] = []"
    by simp
  have "readable example_fs ''proj/a.txt''" by (simp add: example_fs_def)
  with nested run upload run2 split acc rej rej2
    example_run_quota example_run_refused example_run_unreachable
    example_represents example_depth
  show ?thesis by simp
qed

subsection \<open>Remote destinations\<close>

text \<open>
  C5. On a local directory tree \<^verbatim>\<open>copy_from\<close> returns, and in a run that returns
  normally the regular file with the names \<open>p\<close> from the root of the tree is
  uploaded from its local path with the destination \<^verbatim>\<open>os.path.join\<close> of the adapter's
  root path and the remote path of the directory that holds it, under its own name; no
  upload of that file in any run has another destination. The destination is the path
  one gets from \<open>R\<close>, the root path joined with the remote path of the tree, by
  descending along the same names as on the local side; where \<open>R\<close> is not empty
  and does not end in a separator, the destination and the file name make
  \<open>R/A/B/c.txt\<close> for the local path \<open>lp/A/B/c.txt\<close>, at any depth. A remote path of
  the tree that does not start with a separator is appended to the root path.
\<close>

theorem remote_destination:
  assumes rep: "represents fs lp (Directory cs)" and dep: "depth (Directory cs) \<le> limit"
    and p: "p \<in> set (regular_files (Directory cs))"
  shows "\<exists>r w' es. copy_from limit fs sdk lp rp w = Some (r, w') \<and> log w' = log w @ es
     \<and> ((\<forall>h e. sdk h e) \<and> (\<forall>q \<in> set (regular_files (Directory cs)). readable fs (descend lp q))
          \<longrightarrow> r = Inr ())
     \<and> (r = Inr () \<longrightarrow>
          Files_importData (system_id (adapter w))
            (os_path_join (rootpath (adapter w)) (descend rp (butlast p)))
            (descend lp p) (last p) \<in> set es)
     \<and> (wellformed (Directory cs) \<longrightarrow>
          (\<forall>s q f. Files_importData s q (descend lp p) f \<in> set es \<longrightarrow>
             q = os_path_join (rootpath (adapter w)) (descend rp (butlast p)) \<and> f = last p))
     \<and> (wellformed (Directory cs) \<longrightarrow>
          os_path_join (rootpath (adapter w)) (descend rp (butlast p)) =
            descend (os_path_join (rootpath (adapter w)) rp) (butlast p))
     \<and> (wellformed (Directory cs) \<and> os_path_join (rootpath (adapter w)) rp \<noteq> []
          \<and> last (os_path_join (rootpath (adapter w)) rp) \<noteq> CHR ''/'' \<longrightarrow>
          os_path_join (rootpath (adapter w)) (descend rp (butlast p)) =
            os_path_join (rootpath (adapter w)) rp @ slashed (butlast p)
          \<and> os_path_join (rootpath (adapter w)) (descend rp (butlast p)) @ ''/'' @ last p =
            os_path_join (rootpath (adapter w)) rp @ slashed p)
     \<and> (wellformed (Directory cs) \<and> lp \<noteq> [] \<and> last lp \<noteq> CHR ''/'' \<longrightarrow>
          descend lp p = lp @ slashed p)
     \<and> (rp \<noteq> [] \<and> hd rp \<noteq> CHR ''/'' \<and> rootpath (adapter w) \<noteq> []
          \<and> last (rootpath (adapter w)) \<noteq> CHR ''/'' \<longrightarrow>
          os_path_join (rootpath (adapter w)) rp = rootpath (adapter w) @ ''/'' @ rp)"
proof -
  let ?t = "Directory cs"
  let ?root = "rootpath (adapter w)"
  let ?full = "concat (map (entry_events (adapter w) lp rp) (entries ?t))"
  let ?g = "\<lambda>p. Files_importData (system_id (adapter w))
                     (os_path_join ?root (descend rp (butlast p))) (descend lp p) (last p)"
  from copy_from_run [OF rep dep] obtain r w' es where
    run: "copy_from limit fs sdk lp rp w = Some (r, w')" and lg: "log w' = log w @ es"
    and pre: "prefix es ?full" and fin: "r = Inr () \<longrightarrow> es = ?full"
    by blast
  have ok: "(\<forall>h e. sdk h e) \<and> (\<forall>q \<in> set (regular_files ?t). readable fs (descend lp q))
      \<longrightarrow> r = Inr ()"
  proof
    assume a: "(\<forall>h e. sdk h e) \<and> (\<forall>q \<in> set (regular_files ?t). readable fs (descend lp q))"
    then have "accepted sdk (log w) ?full" by (simp add: accepted_all)
    from copy_from_succeeds [OF rep dep this] a run show "r = Inr ()" by simp
  qed
  from p have m: "(p, IsFile) \<in> set (entries ?t)" by (auto simp: regular_files_def)
  then have ne: "p \<noteq> []" by (auto dest: entries_children_nonempty)
  have "?g p \<in> set (entry_events (adapter w) lp rp (p, IsFile))" by simp
  with m have "?g p \<in> set ?full" by (simp only: set_concat set_map) blast
  with fin have 1: "r = Inr () \<longrightarrow> ?g p \<in> set es" by simp
  have v: "list_all valid_name p" if "wellformed ?t"
    using entries_valid(1) [OF that m] by simp
  have vb: "list_all valid_name (butlast p)" if "wellformed ?t"
    using v [OF that] by (auto simp: list_all_iff dest: in_set_butlastD)
  have only: "wellformed ?t \<longrightarrow>
      (\<forall>s q f. Files_importData s q (descend lp p) f \<in> set es \<longrightarrow>
         q = os_path_join ?root (descend rp (butlast p)) \<and> f = last p)"
  proof (intro impI allI)
    fix s q f
    assume wf: "wellformed ?t" and mem: "Files_importData s q (descend lp p) f \<in> set es"
    from pre have "set es \<subseteq> set ?full" by (rule set_mono_prefix)
    with mem have "Files_importData s q (descend lp p) f \<in> set ?full" by (rule rev_subsetD)
    from in_entry_events [OF this] obtain p' k where pk: "(p', k) \<in> set (entries ?t)"
      and e: "Files_importData s q (descend lp p) f \<in> set (entry_events (adapter w) lp rp (p', k))"
      by blast
    from e have k: "k = IsFile" by (cases k) simp_all
    with e have eq: "descend lp p' = descend lp p"
      and q: "q = os_path_join ?root (descend rp (butlast p'))" and f: "f = last p'"
      by simp_all
    from entries_valid(1) [OF wf pk] have "list_all valid_name p'" by simp
    from descend_inj [OF this v [OF wf] eq] have "p' = p" .
    with q f show "q = os_path_join ?root (descend rp (butlast p)) \<and> f = last p" by simp
  qed
  have 2: "wellformed ?t \<longrightarrow>
      os_path_join ?root (descend rp (butlast p)) = descend (os_path_join ?root rp) (butlast p)"
  proof
    assume "wellformed ?t"
    from descend_assoc [OF vb [OF this]]
    show "os_path_join ?root (descend rp (butlast p)) =
        descend (os_path_join ?root rp) (butlast p)" .
  qed
  have 3: "wellformed ?t \<and> os_path_join ?root rp \<noteq> [] \<and> last (os_path_join ?root rp) \<noteq> CHR ''/''
      \<longrightarrow> os_path_join ?root (descend rp (butlast p)) = os_path_join ?root rp @ slashed (butlast p)
        \<and> os_path_join ?root (descend rp (butlast p)) @ ''/'' @ last p =
          os_path_join ?root rp @ slashed p"
  proof
    assume a: "wellformed ?t \<and> os_path_join ?root rp \<noteq> []
      \<and> last (os_path_join ?root rp) \<noteq> CHR ''/''"
    then have wf: "wellformed ?t" and n1: "os_path_join ?root rp \<noteq> []"
      and n2: "last (os_path_join ?root rp) \<noteq> CHR ''/''" by blast+
    from 2 wf have "os_path_join ?root (descend rp (butlast p)) =
        descend (os_path_join ?root rp) (butlast p)" by blast
    with descend_literal [OF n1 n2 vb [OF wf]]
    have b: "os_path_join ?root (descend rp (butlast p)) =
        os_path_join ?root rp @ slashed (butlast p)" by simp
    from ne have "slashed p = slashed (butlast p) @ CHR ''/'' # last p"
      using slashed_snoc [of "butlast p" "last p"] by simp
    with b show "os_path_join ?root (descend rp (butlast p)) =
          os_path_join ?root rp @ slashed (butlast p)
        \<and> os_path_join ?root (descend rp (butlast p)) @ ''/'' @ last p =
          os_path_join ?root rp @ slashed p" by simp
  qed
  have 4: "wellformed ?t \<and> lp \<noteq> [] \<and> last lp \<noteq> CHR ''/'' \<longrightarrow> descend lp p = lp @ slashed p"
  proof
    assume a: "wellformed ?t \<and> lp \<noteq> [] \<and> last lp \<noteq> CHR ''/''"
    then have wf: "wellformed ?t" and n1: "lp \<noteq> []" and n2: "last lp \<noteq> CHR ''/''"
      by blast+
    from descend_literal [OF n1 n2 v [OF wf]] show "descend lp p = lp @ slashed p" .
  qed
  have 5: "rp \<noteq> [] \<and> hd rp \<noteq> CHR ''/'' \<and> ?root \<noteq> [] \<and> last ?root \<noteq> CHR ''/'' \<longrightarrow>
      os_path_join ?root rp = ?root @ ''/'' @ rp"
    by (simp add: os_path_join_def)
  from run lg ok 1 only 2 3 4 5 show ?thesis by blast
qed

theorem remote_destination_witness:
  "represents example_fs ''proj'' example_tree \<and> depth example_tree \<le> 2
   \<and> wellformed example_tree \<and> [''sub'', ''b.txt''] \<in> set (regular_files example_tree)
   \<and> (\<forall>h e. reliable h e)
   \<and> readable example_fs ''proj/a.txt'' \<and> readable example_fs ''proj/sub/b.txt''
   \<and> copy_from 2 example_fs reliable ''proj'' ''proj'' example_world =
       Some (Inr (), example_world\<lparr>log := example_log\<rparr>)
   \<and> Files_importData ''data-sd2e-community'' ''/sample/biofab/proj/sub'' ''proj/sub/b.txt''
       ''b.txt'' \<in> set example_log
   \<and> os_path_join ''/sample/biofab'' ''proj'' = ''/sample/biofab/proj''
   \<and> ''/sample/biofab/proj/sub'' @ ''/'' @ ''b.txt'' =
       ''/sample/biofab/proj'' @ slashed [''sub'', ''b.txt'']
   \<and> descend ''proj'' [''sub'', ''b.txt''] = ''proj'' @ slashed [''sub'', ''b.txt'']"
proof -
  let ?cs = "[(''a.txt'', RegularFile), (''sub'', Directory [(''b.txt'', RegularFile)]),
              (''pipe'', Other)]"
  have p: "[''sub'', ''b.txt''] \<in> set (regular_files (Directory ?cs))"
    by (simp add: regular_files_def)
  from remote_destination [OF example_children_represents example_children_depth p,
      where sdk = reliable and rp = "''proj''" and w = example_world]
  obtain r w' es where
    run: "copy_from 2 example_fs reliable ''proj'' ''proj'' example_world = Some (r, w')"
    and lg: "log w' = log example_world @ es"
    and ok: "(\<forall>h e. reliable h e)
        \<and> (\<forall>q \<in> set (regular_files (Directory ?cs)). readable example_fs (descend ''proj'' q))
        \<longrightarrow> r = Inr ()"
    and up: "r = Inr () \<longrightarrow>
        Files_importData (system_id (adapter example_world))
          (os_path_join (rootpath (adapter example_world))
             (descend ''proj'' (butlast [''sub'', ''b.txt''])))
          (descend ''proj'' [''sub'', ''b.txt'']) (last [''sub'', ''b.txt'']) \<in> set es"
    and lit: "wellformed (Directory ?cs) \<and> ''proj'' \<noteq> [] \<and> last ''proj'' \<noteq> CHR ''/'' \<longrightarrow>
        descend ''proj'' [''sub'', ''b.txt''] = ''proj'' @ slashed [''sub'', ''b.txt'']"
    by blast
  from ok reliable_accepts example_readable have r: "r = Inr ()" by blast
  with run example_run_log have "w' = example_world\<lparr>log := example_log\<rparr>" by simp
  with lg have es: "es = example_log" by (simp add: example_world_def)
  from up r es have call: "Files_importData ''data-sd2e-community'' ''/sample/biofab/proj/sub''
      ''proj/sub/b.txt'' ''b.txt'' \<in> set example_log"
    by (simp add: descend_def os_path_join_def example_world_def example_adapter_def)
  from lit have "descend ''proj'' [''sub'', ''b.txt''] = ''proj'' @ slashed [''sub'', ''b.txt'']"
    by simp
  with call example_run_log example_represents example_depth reliable_accepts
  show ?thesis
    by (simp add: example_tree_def regular_files_def example_fs_def os_path_join_def slashed_def)
qed

subsection \<open>Termination\<close>

text \<open>
  C10. On a finite directory tree \<^verbatim>\<open>copy_from\<close> returns, with a result or an
  exception, as soon as it may nest as deep as the tree is: it only descends into the
  directories of the tree, one level at a time.
\<close>

theorem copy_from_terminates:
  assumes "represents fs lp (Directory cs)" and "depth (Directory cs) \<le> limit"
  shows "\<exists>r w'. copy_from limit fs sdk lp rp w = Some (r, w')"
proof -
  have "copy_from limit fs sdk lp rp w =
      Some (perform_all fs sdk (schedule lp rp (Directory cs)) w)"
    using assms by (intro copy_from_schedule) simp_all
  then show ?thesis
    by (cases "perform_all fs sdk (schedule lp rp (Directory cs)) w") auto
qed

theorem copy_from_terminates_witness:
  "represents example_fs ''proj''
     (Directory [(''a.txt'', RegularFile), (''sub'', Directory [(''b.txt'', RegularFile)]),
                 (''pipe'', Other)])
   \<and> depth (Directory [(''a.txt'', RegularFile), (''sub'', Directory [(''b.txt'', RegularFile)]),
                 (''pipe'', Other)]) \<le> 2
   \<and> (\<exists>r w'. copy_from 2 example_fs refuses_uploads ''proj'' ''proj'' example_world = Some (r, w'))"
proof -
  have r: "represents example_fs ''proj''
     (Directory [(''a.txt'', RegularFile), (''sub'', Directory [(''b.txt'', RegularFile)]),
                 (''pipe'', Other)])"
    using example_represents by (simp only: example_tree_def)
  have d: "depth (Directory [(''a.txt'', RegularFile), (''sub'', Directory [(''b.txt'', RegularFile)]),
                 (''pipe'', Other)]) \<le> 2"
    by simp
  from copy_from_terminates [OF r d, of refuses_uploads "''proj''" example_world] r d
  show ?thesis by blast
qed

end
